theory Spec2Isabelle
  imports Main
begin

section \<open>Data model of the way graph (datastructures.hh)\<close>

text \<open>
  \<open>WayID\<close> is \<open>std::string\<close>, \<open>Distance\<close> is \<open>int\<close>, and \<open>int\<close> is 32 bits wide.
  The values of an \<open>int\<close> are kept as integers of HOL; a sum or a difference of two
  \<open>int\<close>s is brought back into the range of \<open>int\<close> by \<open>int_wrap\<close>, the two's
  complement wrap-around of the machine addition and subtraction. (The language leaves
  an overflowing signed operation undefined; the model gives it the result of the
  machine instruction that the operation is compiled to.)
\<close>

type_synonym WayID = string
type_synonym Distance = int

definition INT_MIN :: int where
  "INT_MIN = - 2147483648"

definition INT_MAX :: int where
  "INT_MAX = 2147483647"

definition int_range :: "int \<Rightarrow> bool" where
  "int_range v \<longleftrightarrow> INT_MIN \<le> v \<and> v \<le> INT_MAX"

definition int_wrap :: "int \<Rightarrow> int" where
  "int_wrap v = (v + 2147483648) mod 4294967296 - 2147483648"

definition int_add :: "int \<Rightarrow> int \<Rightarrow> int" where
  "int_add a b = int_wrap (a + b)"

definition int_sub :: "int \<Rightarrow> int \<Rightarrow> int" where
  "int_sub a b = int_wrap (a - b)"

definition NO_WAY :: WayID where
  "NO_WAY = ''!!No way!!''"

text \<open>\<open>std::numeric_limits<int>::min()\<close> of a 32-bit \<open>int\<close>.\<close>

definition NO_VALUE :: int where
  "NO_VALUE = - 2147483648"

definition NO_DISTANCE :: Distance where
  "NO_DISTANCE = NO_VALUE"

text \<open>
  \<open>struct Coord { int x; int y; }\<close>. Equality is field-wise, as \<open>operator==\<close> defines it.
  The fields are called \<open>coord_x\<close> and \<open>coord_y\<close> so that \<open>x\<close> and \<open>y\<close> stay usable as
  variables.
\<close>

record Coord =
  coord_x :: int
  coord_y :: int

definition NO_COORD :: Coord where
  "NO_COORD = \<lparr>coord_x = NO_VALUE, coord_y = NO_VALUE\<rparr>"

text \<open>
  \<open>struct Way\<close>: the constructor copies id and polyline, takes the first and the last
  coordinate as the two ends and adds up the section lengths.
\<close>

record Way =
  way_id :: WayID
  way_coordinates :: "Coord list"
  end1 :: Coord
  end2 :: Coord
  way_length :: int

text \<open>
  The section length is \<open>std::floor(std::sqrt(std::pow(dx, 2) + std::pow(dy, 2)))\<close>
  converted to \<open>int\<close>, where \<open>dx\<close> and \<open>dy\<close> are differences of \<open>int\<close>s and the
  power, the sum and the root are computed in \<open>double\<close>.

  While the sum of the squares of \<open>dx\<close> and \<open>dy\<close> is below 2^52 = 4503599627370496,
  the squares and their sum are integers that a \<open>double\<close> holds exactly, and the
  \<open>double\<close> nearest to the root has the same integer part as the root: below 2^26 the
  \<open>double\<close>s are 2^-27 or less apart, and the root of a number below 2^52 that is not
  a square is further than that below the next integer. There the expression is the
  integer square root \<open>floor_sqrt\<close>.

  From 2^52 on, the value depends on how \<open>std::pow\<close> and \<open>std::sqrt\<close> round (for the
  section from (0, 0) to (1073744141, 46341) the integer square root is 1073744141 and
  the \<open>double\<close> nearest to the root is 1073744142) and on the conversion of a \<open>double\<close>
  beyond the range of \<open>int\<close>; the source does not determine it. The model leaves that
  value unspecified: it is \<open>rounded_section_length dx dy\<close>, about which nothing is
  assumed.
\<close>

fun sqrt_floor :: "nat \<Rightarrow> nat" where
  "sqrt_floor n =
     (if n < 2 then n
      else let r = 2 * sqrt_floor (n div 4)
           in if (r + 1) * (r + 1) \<le> n then r + 1 else r)"

declare sqrt_floor.simps [simp del]

definition floor_sqrt :: "int \<Rightarrow> int" where
  "floor_sqrt v = int (sqrt_floor (nat v))"

definition rounded_section_length :: "int \<Rightarrow> int \<Rightarrow> int" where
  "rounded_section_length = undefined"

definition section_length :: "Coord \<Rightarrow> Coord \<Rightarrow> int" where
  "section_length a b =
     (let dx = int_sub (coord_x a) (coord_x b);
          dy = int_sub (coord_y a) (coord_y b);
          q = dx * dx + dy * dy
      in if q < 4503599627370496 then floor_sqrt q else rounded_section_length dx dy)"

text \<open>
  The \<open>for\<close> loop of the constructor, \<open>i\<close> from 0 to \<open>size() - 2\<close>, on the accumulator
  \<open>length\<close>, an \<open>int\<close>.
\<close>

fun way_length_loop :: "Coord list \<Rightarrow> int \<Rightarrow> int" where
  "way_length_loop (a # b # cs) acc = way_length_loop (b # cs) (int_add acc (section_length a b))"
| "way_length_loop cs acc = acc"

text \<open>
  The constructor dereferences \<open>coordinates.begin()\<close> and \<open>coordinates.rbegin()\<close>:
  an empty coordinate vector is undefined behaviour in the source, \<open>None\<close> here.
\<close>

definition make_Way :: "WayID \<Rightarrow> Coord list \<Rightarrow> Way option" where
  "make_Way wid coords =
     (case coords of
        [] \<Rightarrow> None
      | c # cs \<Rightarrow> Some \<lparr>way_id = wid, way_coordinates = coords, end1 = c,
                        end2 = last coords, way_length = way_length_loop coords 0\<rparr>)"

text \<open>
  \<open>struct Crossroad_data\<close>. The header names the third field \<open>minimum_distance\<close>, the
  member functions read and write it as \<open>distance\<close>; the model uses the latter name.
\<close>

record Crossroad_data =
  coordinates :: Coord
  visited :: bool
  distance :: int

definition make_Crossroad_data :: "Coord \<Rightarrow> Crossroad_data" where
  "make_Crossroad_data c = \<lparr>coordinates = c, visited = False, distance = NO_DISTANCE\<rparr>"

text \<open>
  The members of \<open>class Datastructures\<close> that the way operations use.
  \<open>ways_by_coord_\<close> is an unordered multimap: it is a list of key-value pairs, the
  elements of one key in the order in which \<open>equal_range\<close> enumerates them.
  The ways and crossroad records are held through shared pointers; a way is never
  written after its construction and a crossroad record is reachable through
  \<open>visited_coordinates_\<close> only, so both are kept by value.
\<close>

record Datastructures =
  ways_by_id :: "WayID \<rightharpoonup> Way"
  ways_by_coord :: "(Coord \<times> Way) list"
  visited_coordinates :: "Coord \<rightharpoonup> Crossroad_data"
  chosen_route :: "(Coord \<times> WayID \<times> Distance) list"
  cyclic_route :: "(Coord \<times> WayID) list"
  route_found :: bool

text \<open>
  The state after the constructor. \<open>route_found_\<close> is not initialised by the constructor;
  every query assigns it in \<open>clean_for_search\<close> before reading it.
\<close>

definition init_state :: "bool \<Rightarrow> Datastructures" where
  "init_state b = \<lparr>ways_by_id = Map.empty, ways_by_coord = [], visited_coordinates = Map.empty,
                   chosen_route = [], cyclic_route = [], route_found = b\<rparr>"

text \<open>
  \<open>at\<close> throws \<open>std::out_of_range\<close> on a missing key. The searches are recursive; the
  model bounds the number of nested activations by a fuel argument and reports
  \<open>out_of_fuel\<close> when an activation would exceed it.
\<close>

datatype error = out_of_range | out_of_fuel

text \<open>
  The argument of \<open>clean_for_search\<close>. The member functions pass \<open>NORMAL\<close> or
  \<open>CYCLE\<close>; the two constants are declared outside the given source, and all the code
  does with them is compare the argument with \<open>NORMAL\<close>.
\<close>

datatype search_type = NORMAL | CYCLE

section \<open>Way Index operations\<close>

definition get_way :: "Datastructures \<Rightarrow> WayID \<Rightarrow> Way option" where
  "get_way s wid = ways_by_id s wid"

text \<open>
  \<open>add_way\<close>: the result is the returned flag and the new state. A new element of the
  multimap is put in front of the list.
\<close>

definition add_way :: "WayID \<Rightarrow> Coord list \<Rightarrow> Datastructures \<Rightarrow> (bool \<times> Datastructures) option" where
  "add_way wid coords s =
     (case get_way s wid of
        Some found_way \<Rightarrow> Some (False, s)
      | None \<Rightarrow>
         (case make_Way wid coords of
            None \<Rightarrow> None
          | Some added_way \<Rightarrow>
             let e1 = end1 added_way;
                 e2 = end2 added_way;
                 s1 = s\<lparr>ways_by_id := (ways_by_id s)(wid \<mapsto> added_way)\<rparr>;
                 s2 = s1\<lparr>ways_by_coord := (e1, added_way) # ways_by_coord s1\<rparr>;
                 s3 = s2\<lparr>ways_by_coord := (e2, added_way) # ways_by_coord s2\<rparr>;
                 s4 = (if visited_coordinates s3 e1 = None
                       then s3\<lparr>visited_coordinates :=
                                 (visited_coordinates s3)(e1 \<mapsto> make_Crossroad_data e1)\<rparr>
                       else s3);
                 s5 = (if visited_coordinates s4 e2 = None
                       then s4\<lparr>visited_coordinates :=
                                 (visited_coordinates s4)(e2 \<mapsto> make_Crossroad_data e2)\<rparr>
                       else s4)
             in Some (True, s5)))"

definition ways_from :: "Datastructures \<Rightarrow> Coord \<Rightarrow> (WayID \<times> Coord) list" where
  "ways_from s xy =
     map (\<lambda>(c, w). if xy = end1 w then (way_id w, end2 w) else (way_id w, end1 w))
         (filter (\<lambda>(c, w). c = xy) (ways_by_coord s))"

definition get_way_coords :: "Datastructures \<Rightarrow> WayID \<Rightarrow> Coord list" where
  "get_way_coords s wid =
     (case get_way s wid of None \<Rightarrow> [NO_COORD] | Some wanted_way \<Rightarrow> way_coordinates wanted_way)"

definition clear_ways :: "Datastructures \<Rightarrow> Datastructures" where
  "clear_ways s = s\<lparr>ways_by_id := Map.empty, ways_by_coord := [],
                    visited_coordinates := Map.empty, chosen_route := [], cyclic_route := []\<rparr>"

text \<open>
  The loop of \<open>remove_way\<close> over \<open>equal_range(coord)\<close>: the first element of that key
  whose way has the wanted id is erased, then the loop breaks.
\<close>

fun erase_first :: "Coord \<Rightarrow> WayID \<Rightarrow> (Coord \<times> Way) list \<Rightarrow> (Coord \<times> Way) list" where
  "erase_first c wid [] = []"
| "erase_first c wid ((k, w) # rest) =
     (if k = c \<and> wid = way_id w then rest else (k, w) # erase_first c wid rest)"

definition remove_way :: "WayID \<Rightarrow> Datastructures \<Rightarrow> bool \<times> Datastructures" where
  "remove_way wid s =
     (case get_way s wid of
        None \<Rightarrow> (False, s)
      | Some searched_way \<Rightarrow>
         let wanted_coord1 = end1 searched_way;
             wanted_coord2 = end2 searched_way;
             s1 = s\<lparr>ways_by_coord := erase_first wanted_coord1 wid (ways_by_coord s)\<rparr>;
             s2 = (if ways_from s1 wanted_coord1 = []
                   then s1\<lparr>visited_coordinates := (visited_coordinates s1)(wanted_coord1 := None)\<rparr>
                   else s1);
             s3 = s2\<lparr>ways_by_coord := erase_first wanted_coord2 wid (ways_by_coord s2)\<rparr>;
             s4 = (if ways_from s3 wanted_coord2 = []
                   then s3\<lparr>visited_coordinates := (visited_coordinates s3)(wanted_coord2 := None)\<rparr>
                   else s3)
         in (True, s4\<lparr>ways_by_id := (ways_by_id s4)(wid := None)\<rparr>))"

section \<open>Route search\<close>

definition clean_for_search :: "search_type \<Rightarrow> Datastructures \<Rightarrow> Datastructures" where
  "clean_for_search type s =
     (let s1 = s\<lparr>route_found := False\<rparr>;
          s2 = s1\<lparr>visited_coordinates :=
                    (\<lambda>c. map_option (\<lambda>cr. cr\<lparr>distance := NO_VALUE, visited := False\<rparr>)
                                     (visited_coordinates s1 c))\<rparr>
      in if type = NORMAL then s2\<lparr>chosen_route := []\<rparr> else s2\<lparr>cyclic_route := []\<rparr>)"

text \<open>
  \<open>search_any\<close> and the \<open>for\<close> loop in its body. The first argument is the number of
  activations that may still be nested; the loop runs inside the activation that
  started it and hands its budget to the calls it makes.
\<close>

fun search_any :: "nat \<Rightarrow> Coord \<Rightarrow> Coord \<Rightarrow> int \<Rightarrow> Datastructures \<Rightarrow> error + Datastructures"
and search_any_loop ::
  "nat \<Rightarrow> Coord \<Rightarrow> Coord \<Rightarrow> int \<Rightarrow> (WayID \<times> Coord) list \<Rightarrow> Datastructures \<Rightarrow> error + Datastructures"
where
  "search_any 0 current goal route_length s = Inl out_of_fuel"
| "search_any (Suc n) current goal route_length s =
     (case visited_coordinates s current of
        None \<Rightarrow> Inl out_of_range
      | Some cr \<Rightarrow>
         let s1 = s\<lparr>visited_coordinates :=
                     (visited_coordinates s)(current \<mapsto> cr\<lparr>distance := route_length, visited := True\<rparr>)\<rparr>
         in if current = goal
            then (case visited_coordinates s1 current of
                    None \<Rightarrow> Inl out_of_range
                  | Some cr1 \<Rightarrow>
                     Inr (s1\<lparr>route_found := True,
                             chosen_route := chosen_route s1 @ [(goal, NO_WAY, distance cr1)]\<rparr>))
            else search_any_loop n current goal route_length (ways_from s1 current) s1)"
| "search_any_loop n current goal route_length [] s = Inr s"
| "search_any_loop n current goal route_length ((wid, c) # rest) s =
     (case visited_coordinates s c of
        None \<Rightarrow> Inl out_of_range
      | Some cr \<Rightarrow>
         if visited cr then search_any_loop n current goal route_length rest s
         else (case ways_by_id s wid of
                 None \<Rightarrow> Inl out_of_range
               | Some w \<Rightarrow>
                  (case search_any n c goal (int_add route_length (way_length w)) s of
                     Inl e \<Rightarrow> Inl e
                   | Inr s' \<Rightarrow>
                      if route_found s'
                      then (case visited_coordinates s' current of
                              None \<Rightarrow> Inl out_of_range
                            | Some cr' \<Rightarrow>
                               Inr (s'\<lparr>chosen_route :=
                                        chosen_route s' @ [(current, wid, distance cr')]\<rparr>))
                      else search_any_loop n current goal route_length rest s')))"

fun search_cycle :: "nat \<Rightarrow> Coord \<Rightarrow> Coord \<Rightarrow> Datastructures \<Rightarrow> error + Datastructures"
and search_cycle_loop ::
  "nat \<Rightarrow> Coord \<Rightarrow> Coord \<Rightarrow> (WayID \<times> Coord) list \<Rightarrow> Datastructures \<Rightarrow> error + Datastructures"
where
  "search_cycle 0 current previous s = Inl out_of_fuel"
| "search_cycle (Suc n) current previous s =
     (case visited_coordinates s current of
        None \<Rightarrow> Inl out_of_range
      | Some cr \<Rightarrow>
         if visited cr
         then Inr (s\<lparr>route_found := True, cyclic_route := cyclic_route s @ [(current, NO_WAY)]\<rparr>)
         else let s1 = s\<lparr>visited_coordinates :=
                          (visited_coordinates s)(current \<mapsto> cr\<lparr>visited := True\<rparr>)\<rparr>
              in search_cycle_loop n current previous (ways_from s1 current) s1)"
| "search_cycle_loop n current previous [] s = Inr s"
| "search_cycle_loop n current previous ((wid, c) # rest) s =
     (if c = previous then search_cycle_loop n current previous rest s
      else (case search_cycle n c current s of
              Inl e \<Rightarrow> Inl e
            | Inr s' \<Rightarrow>
               if route_found s'
               then Inr (s'\<lparr>cyclic_route := cyclic_route s' @ [(current, wid)]\<rparr>)
               else search_cycle_loop n current previous rest s'))"

text \<open>
  The two queries. The result is the returned vector and the state left behind
  (\<open>chosen_route_\<close> and \<open>cyclic_route_\<close> stay reversed in the object).
\<close>

definition route_any ::
  "nat \<Rightarrow> Coord \<Rightarrow> Coord \<Rightarrow> Datastructures \<Rightarrow>
     error + ((Coord \<times> WayID \<times> Distance) list \<times> Datastructures)" where
  "route_any fuel fromxy toxy s =
     (if ways_from s toxy = [] \<or> ways_from s fromxy = []
      then Inr ([(NO_COORD, NO_WAY, NO_DISTANCE)], s)
      else (case search_any fuel fromxy toxy 0 (clean_for_search NORMAL s) of
              Inl e \<Rightarrow> Inl e
            | Inr s2 \<Rightarrow>
               let s3 = s2\<lparr>chosen_route := rev (chosen_route s2)\<rparr>
               in Inr (chosen_route s3, s3)))"

definition route_with_cycle ::
  "nat \<Rightarrow> Coord \<Rightarrow> Datastructures \<Rightarrow> error + ((Coord \<times> WayID) list \<times> Datastructures)" where
  "route_with_cycle fuel fromxy s =
     (if ways_from s fromxy = []
      then Inr ([(NO_COORD, NO_WAY)], s)
      else (case search_cycle fuel fromxy NO_COORD (clean_for_search CYCLE s) of
              Inl e \<Rightarrow> Inl e
            | Inr s2 \<Rightarrow>
               let s3 = s2\<lparr>cyclic_route := rev (cyclic_route s2)\<rparr>
               in Inr (cyclic_route s3, s3)))"

section \<open>Invariants of the graph state\<close>

text \<open>
  The Way Index invariant: the by-id view is keyed by the ways' own ids, and the
  by-coordinate view holds every way of the by-id view once under each of its two ends
  (twice under the same coordinate when both ends are equal) and nothing else.
\<close>

definition way_index_ok :: "Datastructures \<Rightarrow> bool" where
  "way_index_ok s \<longleftrightarrow>
     (\<forall>wid w. ways_by_id s wid = Some w \<longrightarrow> way_id w = wid) \<and>
     (\<forall>c w. count_list (ways_by_coord s) (c, w) =
        (if ways_by_id s (way_id w) = Some w
         then (if c = end1 w then 1 else 0) + (if c = end2 w then 1 else 0)
         else 0))"

definition is_endpoint :: "Datastructures \<Rightarrow> Coord \<Rightarrow> bool" where
  "is_endpoint s c \<longleftrightarrow> (\<exists>wid w. ways_by_id s wid = Some w \<and> (c = end1 w \<or> c = end2 w))"

text \<open>The crossroad-state invariant: every end of every stored way has an entry.\<close>

definition crossroads_cover :: "Datastructures \<Rightarrow> bool" where
  "crossroads_cover s \<longleftrightarrow> (\<forall>c. is_endpoint s c \<longrightarrow> c \<in> dom (visited_coordinates s))"

text \<open>A graph state: both invariants, and a table of finitely many crossroads.\<close>

definition graph_ok :: "Datastructures \<Rightarrow> bool" where
  "graph_ok s \<longleftrightarrow>
     way_index_ok s \<and> crossroads_cover s \<and> finite (dom (visited_coordinates s))"

text \<open>
  The states an object can be in: the constructed object and what calls of the public
  way operations make of it. A query counts when it returns.
\<close>

inductive reachable :: "Datastructures \<Rightarrow> bool" where
  reachable_init: "reachable (init_state b)"
| reachable_add_way: "reachable s \<Longrightarrow> add_way wid coords s = Some (b, s') \<Longrightarrow> reachable s'"
| reachable_remove_way: "reachable s \<Longrightarrow> remove_way wid s = (b, s') \<Longrightarrow> reachable s'"
| reachable_clear_ways: "reachable s \<Longrightarrow> reachable (clear_ways s)"
| reachable_route_any: "reachable s \<Longrightarrow> route_any fuel a b s = Inr (r, s') \<Longrightarrow> reachable s'"
| reachable_route_with_cycle:
    "reachable s \<Longrightarrow> route_with_cycle fuel a s = Inr (rc, s') \<Longrightarrow> reachable s'"

section \<open>Paths in the way graph\<close>

text \<open>
  A walk from a coordinate is a list of steps, each the way taken and the coordinate
  reached, every step being one of the incidences \<open>ways_from\<close> lists at the
  coordinate the step starts from.
\<close>

fun walk :: "Datastructures \<Rightarrow> Coord \<Rightarrow> (WayID \<times> Coord) list \<Rightarrow> bool" where
  "walk s c [] = True"
| "walk s c (e # rest) = (e \<in> set (ways_from s c) \<and> walk s (snd e) rest)"

definition path_exists :: "Datastructures \<Rightarrow> Coord \<Rightarrow> Coord \<Rightarrow> bool" where
  "path_exists s a b \<longleftrightarrow> (\<exists>p. walk s a p \<and> last (a # map snd p) = b)"

text \<open>No step takes the way of the step before it.\<close>

fun no_retrace :: "(WayID \<times> Coord) list \<Rightarrow> bool" where
  "no_retrace (e1 # e2 # rest) = (fst e1 \<noteq> fst e2 \<and> no_retrace (e2 # rest))"
| "no_retrace p = True"

text \<open>
  A cycle is reachable from a coordinate: there is a walk of at least one step from it
  that never retraces the way just used and whose last step arrives at a coordinate the
  walk has been at before.
\<close>

definition cycle_reachable :: "Datastructures \<Rightarrow> Coord \<Rightarrow> bool" where
  "cycle_reachable s a \<longleftrightarrow>
     (\<exists>p. p \<noteq> [] \<and> walk s a p \<and> no_retrace p \<and>
          snd (last p) \<in> set (a # map snd (butlast p)))"

text \<open>
  The shape of a route. \<open>way_joins\<close> says that the way of an id is stored, has the two
  coordinates as its ends and has the given length. \<open>distance_step\<close> is what
  \<open>search_any\<close> does to the distance when it takes a way: the next distance is the sum
  in \<open>int\<close> arithmetic, which is the sum of the two numbers whenever that sum is in the
  range of \<open>int\<close>. \<open>route_links\<close> relates each entry to the next one through the way
  recorded in the entry itself, which is where \<open>search_any\<close> puts it.
\<close>

definition way_joins :: "Datastructures \<Rightarrow> WayID \<Rightarrow> Coord \<Rightarrow> Coord \<Rightarrow> int \<Rightarrow> bool" where
  "way_joins s wid c c' len =
     (case ways_by_id s wid of
        None \<Rightarrow> False
      | Some w \<Rightarrow> ((end1 w = c \<and> end2 w = c') \<or> (end1 w = c' \<and> end2 w = c)) \<and> way_length w = len)"

definition distance_step :: "Distance \<Rightarrow> int \<Rightarrow> Distance \<Rightarrow> bool" where
  "distance_step d len d' \<longleftrightarrow>
     d' = int_add d len \<and> (int_range (d + len) \<longrightarrow> d' - d = len)"

definition way_leads :: "Datastructures \<Rightarrow> WayID \<Rightarrow> Coord \<Rightarrow> Distance \<Rightarrow> Coord \<Rightarrow> Distance \<Rightarrow> bool" where
  "way_leads s wid c d c' d' =
     (case ways_by_id s wid of
        None \<Rightarrow> False
      | Some w \<Rightarrow> way_joins s wid c c' (way_length w) \<and> distance_step d (way_length w) d')"

fun route_links :: "Datastructures \<Rightarrow> (Coord \<times> WayID \<times> Distance) list \<Rightarrow> bool" where
  "route_links s ((c, wid, d) # (c', wid', d') # rest) =
     (way_leads s wid c d c' d' \<and> route_links s ((c', wid', d') # rest))"
| "route_links s r = True"

text \<open>
  \<open>route_links_arriving\<close> is the shape the specification describes: each entry is related to the next
  one through the way recorded in the next entry, and the difference of the two
  distances is the length of that way.
\<close>

fun route_links_arriving :: "Datastructures \<Rightarrow> (Coord \<times> WayID \<times> Distance) list \<Rightarrow> bool" where
  "route_links_arriving s ((c, wid, d) # (c', wid', d') # rest) =
     (way_joins s wid' c c' (d' - d) \<and> route_links_arriving s ((c', wid', d') # rest))"
| "route_links_arriving s r = True"

section \<open>Example graphs\<close>

definition c00 :: Coord where "c00 = \<lparr>coord_x = 0, coord_y = 0\<rparr>"
definition c03 :: Coord where "c03 = \<lparr>coord_x = 0, coord_y = 3\<rparr>"
definition c43 :: Coord where "c43 = \<lparr>coord_x = 4, coord_y = 3\<rparr>"

definition way_W1 :: Way where
  "way_W1 = \<lparr>way_id = ''W1'', way_coordinates = [c00, c03], end1 = c00, end2 = c03, way_length = 3\<rparr>"

definition way_W2 :: Way where
  "way_W2 = \<lparr>way_id = ''W2'', way_coordinates = [c03, c43], end1 = c03, end2 = c43, way_length = 4\<rparr>"

definition way_W3 :: Way where
  "way_W3 = \<lparr>way_id = ''W3'', way_coordinates = [c43, c00], end1 = c43, end2 = c00, way_length = 5\<rparr>"

text \<open>The graph with the single way W1 from (0,0) to (0,3).\<close>

definition one_way :: Datastructures where
  "one_way = \<lparr>ways_by_id = [''W1'' \<mapsto> way_W1],
              ways_by_coord = [(c03, way_W1), (c00, way_W1)],
              visited_coordinates = [c00 \<mapsto> make_Crossroad_data c00, c03 \<mapsto> make_Crossroad_data c03],
              chosen_route = [], cyclic_route = [], route_found = False\<rparr>"

text \<open>The graph with W1 from (0,0) to (0,3) and W2 from (0,3) to (4,3), added in this order.\<close>

definition two_ways :: Datastructures where
  "two_ways = \<lparr>ways_by_id = [''W1'' \<mapsto> way_W1, ''W2'' \<mapsto> way_W2],
               ways_by_coord = [(c43, way_W2), (c03, way_W2), (c03, way_W1), (c00, way_W1)],
               visited_coordinates = [c00 \<mapsto> make_Crossroad_data c00, c03 \<mapsto> make_Crossroad_data c03,
                                      c43 \<mapsto> make_Crossroad_data c43],
               chosen_route = [], cyclic_route = [], route_found = False\<rparr>"

text \<open>The same two ways added in the other order: \<open>equal_range\<close> of (0,3) lists W1 first.\<close>

definition two_ways_rev :: Datastructures where
  "two_ways_rev = \<lparr>ways_by_id = [''W2'' \<mapsto> way_W2, ''W1'' \<mapsto> way_W1],
               ways_by_coord = [(c03, way_W1), (c00, way_W1), (c43, way_W2), (c03, way_W2)],
               visited_coordinates = [c03 \<mapsto> make_Crossroad_data c03, c43 \<mapsto> make_Crossroad_data c43,
                                      c00 \<mapsto> make_Crossroad_data c00],
               chosen_route = [], cyclic_route = [], route_found = False\<rparr>"

text \<open>The triangle: W3 from (4,3) back to (0,0) added to the two ways.\<close>

definition triangle :: Datastructures where
  "triangle = \<lparr>ways_by_id = [''W1'' \<mapsto> way_W1, ''W2'' \<mapsto> way_W2, ''W3'' \<mapsto> way_W3],
               ways_by_coord = [(c00, way_W3), (c43, way_W3), (c43, way_W2), (c03, way_W2),
                                (c03, way_W1), (c00, way_W1)],
               visited_coordinates = [c00 \<mapsto> make_Crossroad_data c00, c03 \<mapsto> make_Crossroad_data c03,
                                      c43 \<mapsto> make_Crossroad_data c43],
               chosen_route = [], cyclic_route = [], route_found = False\<rparr>"

definition c40 :: Coord where "c40 = \<lparr>coord_x = 4, coord_y = 0\<rparr>"

definition way_W4 :: Way where
  "way_W4 = \<lparr>way_id = ''W4'', way_coordinates = [c43, c40], end1 = c43, end2 = c40, way_length = 3\<rparr>"

text \<open>Two ways that do not meet: W1 from (0,0) to (0,3) and W4 from (4,3) to (4,0).\<close>

definition apart :: Datastructures where
  "apart = \<lparr>ways_by_id = [''W1'' \<mapsto> way_W1, ''W4'' \<mapsto> way_W4],
            ways_by_coord = [(c40, way_W4), (c43, way_W4), (c03, way_W1), (c00, way_W1)],
            visited_coordinates = [c00 \<mapsto> make_Crossroad_data c00, c03 \<mapsto> make_Crossroad_data c03,
                                   c43 \<mapsto> make_Crossroad_data c43, c40 \<mapsto> make_Crossroad_data c40],
            chosen_route = [], cyclic_route = [], route_found = False\<rparr>"

text \<open>A coordinate three units from the sentinel coordinate, and two ways between the two.\<close>

definition c_by_sentinel :: Coord where
  "c_by_sentinel = \<lparr>coord_x = NO_VALUE, coord_y = NO_VALUE + 3\<rparr>"

definition way_T1 :: Way where
  "way_T1 = \<lparr>way_id = ''T1'', way_coordinates = [c_by_sentinel, NO_COORD],
              end1 = c_by_sentinel, end2 = NO_COORD, way_length = 3\<rparr>"

definition way_T2 :: Way where
  "way_T2 = \<lparr>way_id = ''T2'', way_coordinates = [c_by_sentinel, NO_COORD],
              end1 = c_by_sentinel, end2 = NO_COORD, way_length = 3\<rparr>"

definition sentinel_twins :: Datastructures where
  "sentinel_twins =
     \<lparr>ways_by_id = [''T1'' \<mapsto> way_T1, ''T2'' \<mapsto> way_T2],
      ways_by_coord = [(NO_COORD, way_T2), (c_by_sentinel, way_T2),
                       (NO_COORD, way_T1), (c_by_sentinel, way_T1)],
      visited_coordinates = [c_by_sentinel \<mapsto> make_Crossroad_data c_by_sentinel,
                             NO_COORD \<mapsto> make_Crossroad_data NO_COORD],
      chosen_route = [], cyclic_route = [], route_found = False\<rparr>"

text \<open>
  Two long ways, each of 32 sections of length 62500000 (whose square, 3906250000000000,
  is below 2^52): L1 from (0,0) east to (2000000000, 0) and L2 from there north to
  (2000000000, 2000000000). Each has length 2000000000; the sum of the two lengths is
  beyond the largest \<open>int\<close>, 2147483647.
\<close>

definition east_points :: "Coord list" where
  "east_points = map (\<lambda>k. \<lparr>coord_x = 62500000 * k, coord_y = 0\<rparr>) [0..32]"

definition north_points :: "Coord list" where
  "north_points = map (\<lambda>k. \<lparr>coord_x = 2000000000, coord_y = 62500000 * k\<rparr>) [0..32]"

definition c_east :: Coord where "c_east = \<lparr>coord_x = 2000000000, coord_y = 0\<rparr>"

definition c_north_east :: Coord where
  "c_north_east = \<lparr>coord_x = 2000000000, coord_y = 2000000000\<rparr>"

definition way_L1 :: Way where
  "way_L1 = \<lparr>way_id = ''L1'', way_coordinates = east_points, end1 = c00, end2 = c_east,
              way_length = 2000000000\<rparr>"

definition way_L2 :: Way where
  "way_L2 = \<lparr>way_id = ''L2'', way_coordinates = north_points, end1 = c_east,
              end2 = c_north_east, way_length = 2000000000\<rparr>"

definition long_ways :: Datastructures where
  "long_ways =
     \<lparr>ways_by_id = [''L1'' \<mapsto> way_L1, ''L2'' \<mapsto> way_L2],
      ways_by_coord = [(c_north_east, way_L2), (c_east, way_L2), (c_east, way_L1), (c00, way_L1)],
      visited_coordinates = [c00 \<mapsto> make_Crossroad_data c00,
                             c_east \<mapsto> make_Crossroad_data c_east,
                             c_north_east \<mapsto> make_Crossroad_data c_north_east],
      chosen_route = [], cyclic_route = [], route_found = False\<rparr>"

section \<open>Notions used in the proofs\<close>

text \<open>
  Two states have the same graph: the same Way Index, in both views, and crossroad
  entries for the same coordinates.
\<close>

definition same_graph :: "Datastructures \<Rightarrow> Datastructures \<Rightarrow> bool" where
  "same_graph s s' \<longleftrightarrow>
     ways_by_id s' = ways_by_id s \<and> ways_by_coord s' = ways_by_coord s \<and>
     dom (visited_coordinates s') = dom (visited_coordinates s)"

text \<open>The coordinate stored in each crossroad entry is the same in both states.\<close>

definition keeps_coordinates :: "Datastructures \<Rightarrow> Datastructures \<Rightarrow> bool" where
  "keeps_coordinates s s' \<longleftrightarrow>
     (\<forall>c. map_option coordinates (visited_coordinates s' c)
          = map_option coordinates (visited_coordinates s c))"

text \<open>
  The invariant of the reachable states: the Way Index invariant, a crossroad entry for
  exactly the ends of the stored ways, finitely many entries.
\<close>

definition entries_exact :: "Datastructures \<Rightarrow> bool" where
  "entries_exact s \<longleftrightarrow> (\<forall>c. c \<in> dom (visited_coordinates s) \<longleftrightarrow> is_endpoint s c)"

definition state_inv :: "Datastructures \<Rightarrow> bool" where
  "state_inv s \<longleftrightarrow> way_index_ok s \<and> entries_exact s \<and> finite (dom (visited_coordinates s))"

definition keys_of :: "(Coord \<times> Way) list \<Rightarrow> Coord set" where
  "keys_of L = fst ` set L"

text \<open>Visited and unvisited coordinates of a state, and what a search newly visits.\<close>

definition is_visited :: "Datastructures \<Rightarrow> Coord \<Rightarrow> bool" where
  "is_visited s c \<longleftrightarrow> (\<exists>cr. visited_coordinates s c = Some cr \<and> visited cr)"

definition visited_set :: "Datastructures \<Rightarrow> Coord set" where
  "visited_set s = {c. is_visited s c}"

definition unvisited :: "Datastructures \<Rightarrow> Coord set" where
  "unvisited s = {c. \<exists>cr. visited_coordinates s c = Some cr \<and> \<not> visited cr}"

definition fresh :: "Datastructures \<Rightarrow> Datastructures \<Rightarrow> Coord set" where
  "fresh s s' = {c. is_visited s' c \<and> \<not> is_visited s c}"

text \<open>The entries of the visited coordinates are the same in the later state.\<close>

definition keeps_visited :: "Datastructures \<Rightarrow> Datastructures \<Rightarrow> bool" where
  "keeps_visited s s' \<longleftrightarrow>
     (\<forall>c cr. visited_coordinates s c = Some cr \<and> visited cr \<longrightarrow> visited_coordinates s' c = Some cr)"

text \<open>Every incidence that \<open>ways_from\<close> lists names a stored way and a coordinate with an entry.\<close>

definition lookups_ok :: "Datastructures \<Rightarrow> bool" where
  "lookups_ok s \<longleftrightarrow>
     (\<forall>c wid c'. (wid, c') \<in> set (ways_from s c) \<longrightarrow>
        c' \<in> dom (visited_coordinates s) \<and> wid \<in> dom (ways_by_id s))"

text \<open>
  A route from c, reached at distance l, to g: it starts with (c, _, l), ends with
  (g, NO_WAY, _) and is linked by its ways. \<open>search_any_outcome\<close> is what a run of
  \<open>search_any\<close> from c does to the route buffer: it appends such a route in reverse
  and raises the flag, or leaves both alone.
\<close>

definition route_from_to ::
  "Datastructures \<Rightarrow> Coord \<Rightarrow> Distance \<Rightarrow> Coord \<Rightarrow> (Coord \<times> WayID \<times> Distance) list \<Rightarrow> bool" where
  "route_from_to s c l g r \<longleftrightarrow>
     r \<noteq> [] \<and> fst (hd r) = c \<and> snd (snd (hd r)) = l \<and>
     fst (last r) = g \<and> fst (snd (last r)) = NO_WAY \<and> route_links s r"

definition search_any_outcome ::
  "Datastructures \<Rightarrow> Datastructures \<Rightarrow> Coord \<Rightarrow> Distance \<Rightarrow> Coord \<Rightarrow> bool" where
  "search_any_outcome s s' c l g \<longleftrightarrow>
     (if route_found s'
      then \<exists>r. chosen_route s' = chosen_route s @ rev r \<and> route_from_to s c l g r
      else chosen_route s' = chosen_route s)"

text \<open>The steps of the walk that a route describes.\<close>

fun route_steps :: "(Coord \<times> WayID \<times> Distance) list \<Rightarrow> (WayID \<times> Coord) list" where
  "route_steps ((c, wid, d) # (c', wid', d') # rest) = (wid, c') # route_steps ((c', wid', d') # rest)"
| "route_steps r = []"

text \<open>
  A lasso from c: a walk that never retraces a way, does not start towards p, stays out
  of V until its last step, and with its last step arrives in V or at a coordinate it
  has been at. The empty walk is a lasso when c itself is in V.
\<close>

definition lasso :: "Datastructures \<Rightarrow> Coord \<Rightarrow> Coord \<Rightarrow> Coord set \<Rightarrow> bool" where
  "lasso s c p V \<longleftrightarrow>
     (\<exists>w. walk s c w \<and> no_retrace w \<and> (w \<noteq> [] \<longrightarrow> snd (hd w) \<noteq> p) \<and>
          (if w = [] then c \<in> V
           else c \<notin> V \<and> set (map snd (butlast w)) \<inter> V = {} \<and>
                (snd (last w) \<in> V \<or> snd (last w) \<in> set (c # map snd (butlast w)))))"

text \<open>
  What holds of the coordinates that the loop at c has finished with: all their ways lead
  to finished coordinates, or back to c from a coordinate the loop went to directly.
\<close>

definition finished_closed ::
  "Datastructures \<Rightarrow> Coord \<Rightarrow> Coord set \<Rightarrow> (WayID \<times> Coord) list \<Rightarrow> bool" where
  "finished_closed s c V D \<longleftrightarrow>
     (\<forall>e. is_visited s e \<and> e \<notin> V \<and> e \<noteq> c \<longrightarrow>
        (\<forall>i \<in> set (ways_from s e).
            (is_visited s (snd i) \<and> snd i \<notin> V \<and> snd i \<noteq> c) \<or> (snd i = c \<and> e \<in> snd ` set D)))"

section \<open>Arithmetic of \<open>int\<close> and the integer square root\<close>

text \<open>
  \<open>int_wrap\<close> lands in the range of \<open>int\<close> and changes nothing there, so the machine
  sum and difference are the sum and the difference of the numbers whenever those are
  in the range.
\<close>

lemma int_wrap_range: "int_range (int_wrap v)"
  by (simp add: int_range_def int_wrap_def INT_MIN_def INT_MAX_def)

lemma int_wrap_id: "int_range v \<Longrightarrow> int_wrap v = v"
  by (simp add: int_range_def int_wrap_def INT_MIN_def INT_MAX_def)

lemma int_add_exact: "int_range (a + b) \<Longrightarrow> int_add a b = a + b"
  by (simp add: int_add_def int_wrap_id)

lemma int_sub_exact: "int_range (a - b) \<Longrightarrow> int_sub a b = a - b"
  by (simp add: int_sub_def int_wrap_id)

lemma distance_step_int_add: "distance_step d len (int_add d len)"
  by (simp add: distance_step_def int_add_exact)

text \<open>\<open>floor_sqrt\<close> is the floor of the square root.\<close>

lemma sqrt_floor_bounds:
  "sqrt_floor n * sqrt_floor n \<le> n \<and> n < (sqrt_floor n + 1) * (sqrt_floor n + 1)"
proof (induction n rule: sqrt_floor.induct)
  case (1 n)
  show ?case
  proof (cases "n < 2")
    case True
    then have "n = 0 \<or> n = 1" by auto
    then show ?thesis by (auto simp: sqrt_floor.simps[of n])
  next
    case False
    define r0 where "r0 = sqrt_floor (n div 4)"
    from "1.IH"[OF False] have lo: "r0 * r0 \<le> n div 4" and hi: "n div 4 < (r0 + 1) * (r0 + 1)"
      by (simp_all add: r0_def)
    from lo have "4 * (r0 * r0) \<le> 4 * (n div 4)" by simp
    also have "4 * (n div 4) \<le> n" by simp
    finally have lo': "(2 * r0) * (2 * r0) \<le> n" by simp
    from hi have "n div 4 + 1 \<le> (r0 + 1) * (r0 + 1)" by simp
    then have "4 * (n div 4 + 1) \<le> 4 * ((r0 + 1) * (r0 + 1))" by simp
    moreover have "n < 4 * (n div 4 + 1)" by simp
    ultimately have "n < 4 * ((r0 + 1) * (r0 + 1))" by simp
    then have hi': "n < (2 * r0 + 2) * (2 * r0 + 2)" by (simp add: algebra_simps)
    have eq: "sqrt_floor n = (if (2 * r0 + 1) * (2 * r0 + 1) \<le> n then 2 * r0 + 1 else 2 * r0)"
      using False by (simp add: sqrt_floor.simps[of n] r0_def Let_def)
    show ?thesis
    proof (cases "(2 * r0 + 1) * (2 * r0 + 1) \<le> n")
      case True
      with eq have "sqrt_floor n = 2 * r0 + 1" by simp
      with True hi' show ?thesis by (simp add: algebra_simps)
    next
      case False
      with eq have "sqrt_floor n = 2 * r0" by simp
      with False lo' show ?thesis by (simp add: algebra_simps)
    qed
  qed
qed

lemma floor_sqrt_bounds:
  assumes "0 \<le> v"
  shows "floor_sqrt v * floor_sqrt v \<le> v \<and> v < (floor_sqrt v + 1) * (floor_sqrt v + 1)"
proof -
  define n where "n = nat v"
  from assms have v: "v = int n" by (simp add: n_def)
  from sqrt_floor_bounds[of n] have lo: "sqrt_floor n * sqrt_floor n \<le> n"
    and hi: "n < (sqrt_floor n + 1) * (sqrt_floor n + 1)"
    by simp_all
  from lo have "int (sqrt_floor n * sqrt_floor n) \<le> int n"
    by (simp only: of_nat_le_iff)
  moreover from hi have "int n < int ((sqrt_floor n + 1) * (sqrt_floor n + 1))"
    by (simp only: of_nat_less_iff)
  ultimately show ?thesis
    by (simp only: floor_sqrt_def v nat_int of_nat_mult of_nat_add of_nat_1)
qed

lemma floor_sqrt_values: "floor_sqrt 9 = 3" "floor_sqrt 16 = 4" "floor_sqrt 25 = 5"
  by (simp_all add: floor_sqrt_def sqrt_floor.simps)

section \<open>The example graphs are built by \<open>add_way\<close>\<close>

lemma coords_distinct [simp]:
  "c00 \<noteq> c03" "c03 \<noteq> c00" "c00 \<noteq> c43" "c43 \<noteq> c00" "c03 \<noteq> c43" "c43 \<noteq> c03"
  by (simp_all add: c00_def c03_def c43_def)

lemma make_Way_W1: "make_Way ''W1'' [c00, c03] = Some way_W1"
  by (simp add: make_Way_def way_W1_def section_length_def floor_sqrt_values int_add_def
      int_sub_def int_wrap_def c00_def c03_def Let_def)

lemma make_Way_W2: "make_Way ''W2'' [c03, c43] = Some way_W2"
  by (simp add: make_Way_def way_W2_def section_length_def floor_sqrt_values int_add_def
      int_sub_def int_wrap_def c43_def c03_def Let_def)

lemma make_Way_W3: "make_Way ''W3'' [c43, c00] = Some way_W3"
  by (simp add: make_Way_def way_W3_def section_length_def floor_sqrt_values int_add_def
      int_sub_def int_wrap_def c43_def c00_def Let_def)

lemma way_W_simps [simp]:
  "way_id way_W1 = ''W1''" "end1 way_W1 = c00" "end2 way_W1 = c03" "way_length way_W1 = 3"
  "way_id way_W2 = ''W2''" "end1 way_W2 = c03" "end2 way_W2 = c43" "way_length way_W2 = 4"
  "way_id way_W3 = ''W3''" "end1 way_W3 = c43" "end2 way_W3 = c00" "way_length way_W3 = 5"
  by (simp_all add: way_W1_def way_W2_def way_W3_def)

lemma add_way_one_way: "add_way ''W1'' [c00, c03] (init_state False) = Some (True, one_way)"
  by (simp add: add_way_def get_way_def make_Way_W1 init_state_def one_way_def Let_def)

lemma add_way_two_ways: "add_way ''W2'' [c03, c43] one_way = Some (True, two_ways)"
  by (simp add: add_way_def get_way_def make_Way_W2 one_way_def two_ways_def Let_def)

lemma add_way_triangle: "add_way ''W3'' [c43, c00] two_ways = Some (True, triangle)"
  by (simp add: add_way_def get_way_def make_Way_W3 triangle_def two_ways_def Let_def)

lemma add_way_two_ways_rev:
  "\<exists>s. add_way ''W2'' [c03, c43] (init_state False) = Some (True, s) \<and>
       add_way ''W1'' [c00, c03] s = Some (True, two_ways_rev)"
  by (simp add: add_way_def get_way_def make_Way_W1 make_Way_W2 init_state_def two_ways_rev_def
      Let_def)

lemma reachable_one_way: "reachable one_way"
  using reachable_add_way[OF reachable_init add_way_one_way] .

lemma reachable_two_ways: "reachable two_ways"
  using reachable_add_way[OF reachable_one_way add_way_two_ways] .

lemma reachable_triangle: "reachable triangle"
  using reachable_add_way[OF reachable_two_ways add_way_triangle] .

lemma reachable_two_ways_rev: "reachable two_ways_rev"
proof -
  from add_way_two_ways_rev obtain s where
    s: "add_way ''W2'' [c03, c43] (init_state False) = Some (True, s)"
      "add_way ''W1'' [c00, c03] s = Some (True, two_ways_rev)"
    by blast
  from reachable_add_way[OF reachable_add_way[OF reachable_init s(1)] s(2)] show ?thesis .
qed

text \<open>The two long ways: every section has the length 62500000, and 32 of them add up to 2000000000.\<close>

lemma floor_sqrt_long_section: "floor_sqrt 3906250000000000 = 62500000"
  by (simp add: floor_sqrt_def sqrt_floor.simps)

lemma make_Way_L1: "make_Way ''L1'' east_points = Some way_L1"
  by (simp add: make_Way_def way_L1_def east_points_def section_length_def floor_sqrt_long_section
      int_add_def int_sub_def int_wrap_def c00_def c_east_def Let_def upto.simps)

lemma make_Way_L2: "make_Way ''L2'' north_points = Some way_L2"
  by (simp add: make_Way_def way_L2_def north_points_def section_length_def floor_sqrt_long_section
      int_add_def int_sub_def int_wrap_def c_north_east_def c_east_def Let_def upto.simps)

lemma long_coords_distinct [simp]:
  "c00 \<noteq> c_east" "c_east \<noteq> c00" "c00 \<noteq> c_north_east" "c_north_east \<noteq> c00"
  "c_east \<noteq> c_north_east" "c_north_east \<noteq> c_east"
  by (simp_all add: c00_def c_east_def c_north_east_def)

lemma way_L_simps [simp]:
  "way_id way_L1 = ''L1''" "end1 way_L1 = c00" "end2 way_L1 = c_east" "way_length way_L1 = 2000000000"
  "way_id way_L2 = ''L2''" "end1 way_L2 = c_east" "end2 way_L2 = c_north_east" "way_length way_L2 = 2000000000"
  by (simp_all add: way_L1_def way_L2_def)

lemma add_way_long_ways:
  "\<exists>s. add_way ''L1'' east_points (init_state False) = Some (True, s) \<and>
       add_way ''L2'' north_points s = Some (True, long_ways)"
  by (simp add: add_way_def get_way_def make_Way_L1 make_Way_L2 init_state_def long_ways_def
      Let_def)

lemma reachable_long_ways: "reachable long_ways"
proof -
  from add_way_long_ways obtain s where
    s: "add_way ''L1'' east_points (init_state False) = Some (True, s)"
      "add_way ''L2'' north_points s = Some (True, long_ways)"
    by blast
  from reachable_add_way[OF reachable_add_way[OF reachable_init s(1)] s(2)] show ?thesis .
qed

section \<open>Induction over the runs of the searches\<close>

lemma search_any_run_induct:
  fixes P :: "nat \<Rightarrow> Coord \<Rightarrow> Coord \<Rightarrow> int \<Rightarrow> Datastructures \<Rightarrow> Datastructures \<Rightarrow> bool"
    and Q :: "nat \<Rightarrow> Coord \<Rightarrow> Coord \<Rightarrow> int \<Rightarrow> (WayID \<times> Coord) list \<Rightarrow> Datastructures \<Rightarrow> Datastructures \<Rightarrow> bool"
  assumes hit: "\<And>n c l s cr.
      visited_coordinates s c = Some cr \<Longrightarrow>
      P (Suc n) c c l s
        (s\<lparr>visited_coordinates := (visited_coordinates s)(c \<mapsto> cr\<lparr>distance := l, visited := True\<rparr>),
           route_found := True, chosen_route := chosen_route s @ [(c, NO_WAY, l)]\<rparr>)"
  and enter: "\<And>n c g l s cr s1 s'.
      visited_coordinates s c = Some cr \<Longrightarrow> c \<noteq> g \<Longrightarrow>
      s1 = s\<lparr>visited_coordinates := (visited_coordinates s)(c \<mapsto> cr\<lparr>distance := l, visited := True\<rparr>)\<rparr> \<Longrightarrow>
      search_any_loop n c g l (ways_from s1 c) s1 = Inr s' \<Longrightarrow>
      Q n c g l (ways_from s1 c) s1 s' \<Longrightarrow> P (Suc n) c g l s s'"
  and nil: "\<And>n c g l s. Q n c g l [] s s"
  and skip: "\<And>n c g l wid c' rest s cr s'.
      visited_coordinates s c' = Some cr \<Longrightarrow> visited cr \<Longrightarrow>
      search_any_loop n c g l rest s = Inr s' \<Longrightarrow> Q n c g l rest s s' \<Longrightarrow>
      Q n c g l ((wid, c') # rest) s s'"
  and found: "\<And>n c g l wid c' rest s cr w s1 cr1.
      visited_coordinates s c' = Some cr \<Longrightarrow> \<not> visited cr \<Longrightarrow> ways_by_id s wid = Some w \<Longrightarrow>
      search_any n c' g (int_add l (way_length w)) s = Inr s1 \<Longrightarrow> P n c' g (int_add l (way_length w)) s s1 \<Longrightarrow>
      route_found s1 \<Longrightarrow> visited_coordinates s1 c = Some cr1 \<Longrightarrow>
      Q n c g l ((wid, c') # rest) s (s1\<lparr>chosen_route := chosen_route s1 @ [(c, wid, distance cr1)]\<rparr>)"
  and continue: "\<And>n c g l wid c' rest s cr w s1 s'.
      visited_coordinates s c' = Some cr \<Longrightarrow> \<not> visited cr \<Longrightarrow> ways_by_id s wid = Some w \<Longrightarrow>
      search_any n c' g (int_add l (way_length w)) s = Inr s1 \<Longrightarrow> P n c' g (int_add l (way_length w)) s s1 \<Longrightarrow>
      \<not> route_found s1 \<Longrightarrow> search_any_loop n c g l rest s1 = Inr s' \<Longrightarrow> Q n c g l rest s1 s' \<Longrightarrow>
      Q n c g l ((wid, c') # rest) s s'"
  shows "(\<forall>n c g l s s'. search_any n c g l s = Inr s' \<longrightarrow> P n c g l s s') \<and>
         (\<forall>n c g l ws s s'. search_any_loop n c g l ws s = Inr s' \<longrightarrow> Q n c g l ws s s')"
proof -
  have "search_any n c g l s = Inr s' \<Longrightarrow> P n c g l s s'"
    and "search_any_loop n c g l ws s = Inr s' \<Longrightarrow> Q n c g l ws s s'" for n c g l ws s s'
proof (induction n c g l s and n c g l ws s arbitrary: s' and s' rule: search_any_search_any_loop.induct)
  case (1 current goal route_length s)
  then show ?case by simp
next
  case (2 n current goal route_length s)
  from "2.prems" obtain cr where cr: "visited_coordinates s current = Some cr"
    by (cases "visited_coordinates s current") simp_all
  define s1 where "s1 = s\<lparr>visited_coordinates := (visited_coordinates s)(current \<mapsto> cr\<lparr>distance := route_length, visited := True\<rparr>)\<rparr>"
  show ?case
  proof (cases "current = goal")
    case True
    with "2.prems" cr have "s' = s\<lparr>visited_coordinates := (visited_coordinates s)(goal \<mapsto> cr\<lparr>distance := route_length, visited := True\<rparr>),
           route_found := True, chosen_route := chosen_route s @ [(goal, NO_WAY, route_length)]\<rparr>"
      by simp
    with hit[of s goal cr n route_length] cr True show ?thesis by simp
  next
    case False
    with "2.prems" cr have run: "search_any_loop n current goal route_length (ways_from s1 current) s1 = Inr s'"
      by (simp add: s1_def Let_def)
    from "2.IH"[OF cr s1_def False run] have "Q n current goal route_length (ways_from s1 current) s1 s'" .
    with enter[OF cr False s1_def run] show ?thesis by simp
  qed
next
  case (3 n current goal route_length s)
  then show ?case using nil by simp
next
  case (4 n current goal route_length wid c rest s)
  from "4.prems" obtain cr where cr: "visited_coordinates s c = Some cr"
    by (cases "visited_coordinates s c") simp_all
  show ?case
  proof (cases "visited cr")
    case True
    with "4.prems" cr have run: "search_any_loop n current goal route_length rest s = Inr s'" by simp
    from "4.IH"(1)[OF cr True run] skip[OF cr True run] show ?thesis by simp
  next
    case False
    with "4.prems" cr obtain w where w: "ways_by_id s wid = Some w"
      by (cases "ways_by_id s wid") simp_all
    from "4.prems" cr False w obtain s1 where s1: "search_any n c goal (int_add route_length (way_length w)) s = Inr s1"
      by (cases "search_any n c goal (int_add route_length (way_length w)) s") simp_all
    have P1: "P n c goal (int_add route_length (way_length w)) s s1"
      using "4.IH"(2)[OF cr False w s1] .
    show ?thesis
    proof (cases "route_found s1")
      case True
      with "4.prems" cr False w s1 obtain cr1 where cr1: "visited_coordinates s1 current = Some cr1"
        by (cases "visited_coordinates s1 current") simp_all
      with "4.prems" cr False w s1 True
      have "s' = s1\<lparr>chosen_route := chosen_route s1 @ [(current, wid, distance cr1)]\<rparr>" by simp
      with found[OF cr False w s1 P1 True cr1] show ?thesis by simp
    next
      case nf: False
      with "4.prems" cr False w s1 have run: "search_any_loop n current goal route_length rest s1 = Inr s'" by simp
      from "4.IH"(3)[OF cr False w s1 nf run] have "Q n current goal route_length rest s1 s'" .
      with continue[OF cr False w s1 P1 nf run] show ?thesis by simp
    qed
  qed
qed
  then show ?thesis by blast
qed

lemma search_cycle_run_induct:
  fixes P :: "nat \<Rightarrow> Coord \<Rightarrow> Coord \<Rightarrow> Datastructures \<Rightarrow> Datastructures \<Rightarrow> bool"
    and Q :: "nat \<Rightarrow> Coord \<Rightarrow> Coord \<Rightarrow> (WayID \<times> Coord) list \<Rightarrow> Datastructures \<Rightarrow> Datastructures \<Rightarrow> bool"
  assumes hit: "\<And>n c p s cr.
      visited_coordinates s c = Some cr \<Longrightarrow> visited cr \<Longrightarrow>
      P (Suc n) c p s (s\<lparr>route_found := True, cyclic_route := cyclic_route s @ [(c, NO_WAY)]\<rparr>)"
  and enter: "\<And>n c p s cr s1 s'.
      visited_coordinates s c = Some cr \<Longrightarrow> \<not> visited cr \<Longrightarrow>
      s1 = s\<lparr>visited_coordinates := (visited_coordinates s)(c \<mapsto> cr\<lparr>visited := True\<rparr>)\<rparr> \<Longrightarrow>
      search_cycle_loop n c p (ways_from s1 c) s1 = Inr s' \<Longrightarrow>
      Q n c p (ways_from s1 c) s1 s' \<Longrightarrow> P (Suc n) c p s s'"
  and nil: "\<And>n c p s. Q n c p [] s s"
  and skip: "\<And>n c p wid rest s s'.
      search_cycle_loop n c p rest s = Inr s' \<Longrightarrow> Q n c p rest s s' \<Longrightarrow>
      Q n c p ((wid, p) # rest) s s'"
  and found: "\<And>n c p wid c' rest s s1.
      c' \<noteq> p \<Longrightarrow> search_cycle n c' c s = Inr s1 \<Longrightarrow> P n c' c s s1 \<Longrightarrow> route_found s1 \<Longrightarrow>
      Q n c p ((wid, c') # rest) s (s1\<lparr>cyclic_route := cyclic_route s1 @ [(c, wid)]\<rparr>)"
  and continue: "\<And>n c p wid c' rest s s1 s'.
      c' \<noteq> p \<Longrightarrow> search_cycle n c' c s = Inr s1 \<Longrightarrow> P n c' c s s1 \<Longrightarrow> \<not> route_found s1 \<Longrightarrow>
      search_cycle_loop n c p rest s1 = Inr s' \<Longrightarrow> Q n c p rest s1 s' \<Longrightarrow>
      Q n c p ((wid, c') # rest) s s'"
  shows "(\<forall>n c p s s'. search_cycle n c p s = Inr s' \<longrightarrow> P n c p s s') \<and>
         (\<forall>n c p ws s s'. search_cycle_loop n c p ws s = Inr s' \<longrightarrow> Q n c p ws s s')"
proof -
  have "search_cycle n c p s = Inr s' \<Longrightarrow> P n c p s s'"
    and "search_cycle_loop n c p ws s = Inr s' \<Longrightarrow> Q n c p ws s s'" for n c p ws s s'
proof (induction n c p s and n c p ws s arbitrary: s' and s' rule: search_cycle_search_cycle_loop.induct)
  case (1 current previous s)
  then show ?case by simp
next
  case (2 n current previous s)
  from "2.prems" obtain cr where cr: "visited_coordinates s current = Some cr"
    by (cases "visited_coordinates s current") simp_all
  define s1 where "s1 = s\<lparr>visited_coordinates := (visited_coordinates s)(current \<mapsto> cr\<lparr>visited := True\<rparr>)\<rparr>"
  show ?case
  proof (cases "visited cr")
    case True
    with "2.prems" cr have "s' = s\<lparr>route_found := True, cyclic_route := cyclic_route s @ [(current, NO_WAY)]\<rparr>"
      by simp
    with hit[OF cr True] show ?thesis by simp
  next
    case False
    with "2.prems" cr have run: "search_cycle_loop n current previous (ways_from s1 current) s1 = Inr s'"
      by (simp add: s1_def Let_def)
    from "2.IH"[OF cr False s1_def run] enter[OF cr False s1_def run] show ?thesis by simp
  qed
next
  case (3 n current previous s)
  then show ?case using nil by simp
next
  case (4 n current previous wid c rest s)
  show ?case
  proof (cases "c = previous")
    case True
    with "4.prems" have run: "search_cycle_loop n current previous rest s = Inr s'" by simp
    from "4.IH"(1)[OF True run] skip[OF run] True show ?thesis by simp
  next
    case False
    with "4.prems" obtain s1 where s1: "search_cycle n c current s = Inr s1"
      by (cases "search_cycle n c current s") simp_all
    have P1: "P n c current s s1" using "4.IH"(2)[OF False s1] .
    show ?thesis
    proof (cases "route_found s1")
      case True
      with "4.prems" False s1 have "s' = s1\<lparr>cyclic_route := cyclic_route s1 @ [(current, wid)]\<rparr>" by simp
      with found[OF False s1 P1 True] show ?thesis by simp
    next
      case nf: False
      with "4.prems" False s1 have run: "search_cycle_loop n current previous rest s1 = Inr s'" by simp
      from "4.IH"(3)[OF False s1 nf run] continue[OF False s1 P1 nf run] show ?thesis by simp
    qed
  qed
qed
  then show ?thesis by blast
qed

text \<open>The searches write the crossroad records, the route buffers and the flag only.\<close>

lemma ways_from_cong:
  "ways_by_coord s' = ways_by_coord s \<Longrightarrow> ways_from s' c = ways_from s c"
  by (simp add: ways_from_def)

lemma same_graph_refl [simp]: "same_graph s s"
  by (simp add: same_graph_def)

lemma same_graph_trans: "same_graph s s1 \<Longrightarrow> same_graph s1 s2 \<Longrightarrow> same_graph s s2"
  by (simp add: same_graph_def)

lemma same_graph_mark:
  "visited_coordinates s c = Some cr \<Longrightarrow>
   same_graph s (s\<lparr>visited_coordinates := (visited_coordinates s)(c \<mapsto> cr')\<rparr>)"
  by (auto simp: same_graph_def)

lemma same_graph_ways_from: "same_graph s s' \<Longrightarrow> ways_from s' c = ways_from s c"
  by (simp add: same_graph_def ways_from_def)

lemma search_any_frame_all:
  "(\<forall>n c g l s s'. search_any n c g l s = Inr s' \<longrightarrow>
      same_graph s s' \<and> cyclic_route s' = cyclic_route s) \<and>
   (\<forall>n c g l ws s s'. search_any_loop n c g l ws s = Inr s' \<longrightarrow>
      same_graph s s' \<and> cyclic_route s' = cyclic_route s)"
proof (rule search_any_run_induct, goal_cases)
  case (1 n c l s cr)
  then show ?case by (auto simp: same_graph_def)
next
  case (2 n c g l s cr s1 s')
  then show ?case by (auto simp: same_graph_def)
next
  case (5 n c g l wid c' rest s cr w s1 cr1)
  then show ?case by (auto simp: same_graph_def)
qed (auto simp: same_graph_def)

lemmas search_any_frame = search_any_frame_all[THEN conjunct1, rule_format]
lemmas search_any_loop_frame = search_any_frame_all[THEN conjunct2, rule_format]

lemma search_cycle_frame_all:
  "(\<forall>n c p s s'. search_cycle n c p s = Inr s' \<longrightarrow>
      same_graph s s' \<and> chosen_route s' = chosen_route s) \<and>
   (\<forall>n c p ws s s'. search_cycle_loop n c p ws s = Inr s' \<longrightarrow>
      same_graph s s' \<and> chosen_route s' = chosen_route s)"
proof (rule search_cycle_run_induct, goal_cases)
  case (2 n c p s cr s1 s')
  then show ?case by (auto simp: same_graph_def)
qed (auto simp: same_graph_def)

lemmas search_cycle_frame = search_cycle_frame_all[THEN conjunct1, rule_format]
lemmas search_cycle_loop_frame = search_cycle_frame_all[THEN conjunct2, rule_format]



section \<open>The Way Index invariant\<close>

lemma way_index_count:
  "way_index_ok s \<Longrightarrow>
   count_list (ways_by_coord s) (c, w) =
     (if ways_by_id s (way_id w) = Some w
      then (if c = end1 w then 1 else 0) + (if c = end2 w then 1 else 0)
      else 0)"
  unfolding way_index_ok_def by blast

lemma way_index_member:
  assumes "way_index_ok s"
  shows "(c, w) \<in> set (ways_by_coord s) \<longleftrightarrow>
           ways_by_id s (way_id w) = Some w \<and> (c = end1 w \<or> c = end2 w)"
proof -
  have "(c, w) \<notin> set (ways_by_coord s) \<longleftrightarrow> count_list (ways_by_coord s) (c, w) = 0"
    by (rule count_list_0_iff[symmetric])
  also have "\<dots> \<longleftrightarrow> \<not> (ways_by_id s (way_id w) = Some w \<and> (c = end1 w \<or> c = end2 w))"
    by (simp add: way_index_count[OF assms])
  finally show ?thesis by blast
qed

lemma way_index_id: "way_index_ok s \<Longrightarrow> ways_by_id s wid = Some w \<Longrightarrow> way_id w = wid"
  unfolding way_index_ok_def by blast

lemma ways_from_member:
  "e \<in> set (ways_from s c) \<longleftrightarrow>
     (\<exists>w. (c, w) \<in> set (ways_by_coord s) \<and>
          e = (way_id w, if c = end1 w then end2 w else end1 w))"
  by (auto simp: ways_from_def image_iff split: if_splits)

lemma ways_from_empty:
  "ways_from s c = [] \<longleftrightarrow> (\<forall>w. (c, w) \<notin> set (ways_by_coord s))"
  by (auto simp: ways_from_def filter_empty_conv)

lemma incidence_iff:
  assumes "way_index_ok s"
  shows "(wid, c') \<in> set (ways_from s c) \<longleftrightarrow>
           (\<exists>w. ways_by_id s wid = Some w \<and>
                ((end1 w = c \<and> end2 w = c') \<or> (end2 w = c \<and> end1 w = c')))"
  using assms
  by (auto simp: ways_from_member way_index_member dest: way_index_id)

lemma incidence_sym:
  "way_index_ok s \<Longrightarrow> (wid, c') \<in> set (ways_from s c) \<Longrightarrow> (wid, c) \<in> set (ways_from s c')"
  by (auto simp: incidence_iff)

lemma ways_from_nonempty_endpoint:
  assumes "way_index_ok s"
  shows "ways_from s c \<noteq> [] \<longleftrightarrow> is_endpoint s c"
  using assms
  by (auto simp: ways_from_empty way_index_member is_endpoint_def dest: way_index_id)



section \<open>The mutations keep the invariants\<close>

lemma make_Way_id: "make_Way wid coords = Some aw \<Longrightarrow> way_id aw = wid"
  by (auto simp: make_Way_def split: list.splits)

lemma add_way_True:
  assumes "add_way wid coords s = Some (True, s')"
  shows "\<exists>aw. ways_by_id s wid = None \<and> way_id aw = wid \<and>
           ways_by_id s' = (ways_by_id s)(wid \<mapsto> aw) \<and>
           ways_by_coord s' = (end2 aw, aw) # (end1 aw, aw) # ways_by_coord s \<and>
           dom (visited_coordinates s') = dom (visited_coordinates s) \<union> {end1 aw, end2 aw}"
proof -
  from assms have none: "ways_by_id s wid = None"
    by (auto simp: add_way_def get_way_def split: option.splits)
  with assms obtain aw where aw: "make_Way wid coords = Some aw"
    by (auto simp: add_way_def get_way_def split: option.splits)
  have "ways_by_id s' = (ways_by_id s)(wid \<mapsto> aw)"
    "ways_by_coord s' = (end2 aw, aw) # (end1 aw, aw) # ways_by_coord s"
    "dom (visited_coordinates s') = dom (visited_coordinates s) \<union> {end1 aw, end2 aw}"
    using assms none aw by (auto simp: add_way_def get_way_def Let_def split: if_splits)
  with none make_Way_id[OF aw] show ?thesis by blast
qed

lemma add_way_False: "add_way wid coords s = Some (False, s') \<Longrightarrow> s' = s"
  by (auto simp: add_way_def get_way_def Let_def split: option.splits)

lemma add_way_way_index_ok:
  assumes ok: "way_index_ok s" and add: "add_way wid coords s = Some (True, s')"
  shows "way_index_ok s'"
proof -
  from add_way_True[OF add] obtain aw where
    none: "ways_by_id s wid = None" and id: "way_id aw = wid" and
    byid: "ways_by_id s' = (ways_by_id s)(wid \<mapsto> aw)" and
    bycoord: "ways_by_coord s' = (end2 aw, aw) # (end1 aw, aw) # ways_by_coord s"
    by blast
  have ids: "way_id w = k" if "ways_by_id s' k = Some w" for k w
    using that byid id way_index_id[OF ok] by (auto split: if_splits)
  have cnt: "count_list (ways_by_coord s') (c, w) =
        (if ways_by_id s' (way_id w) = Some w
         then (if c = end1 w then 1 else 0) + (if c = end2 w then 1 else 0)
         else 0)" for c w
  proof (cases "w = aw")
    case True
    have "count_list (ways_by_coord s) (k, aw) = 0" for k
      using way_index_count[OF ok, of k aw] none id by simp
    with True show ?thesis by (simp add: bycoord byid id)
  next
    case False
    show ?thesis
    proof (cases "way_id w = wid")
      case True
      have "count_list (ways_by_coord s) (c, w) = 0"
        using way_index_count[OF ok, of c w] none True by simp
      with False True show ?thesis by (simp add: bycoord byid)
    next
      case nid: False
      with False show ?thesis by (simp add: bycoord byid way_index_count[OF ok])
    qed
  qed
  show ?thesis unfolding way_index_ok_def using ids cnt by blast
qed

lemma add_way_entries_exact:
  assumes ok: "way_index_ok s" and ex: "entries_exact s"
    and add: "add_way wid coords s = Some (True, s')"
  shows "entries_exact s'"
proof -
  from add_way_True[OF add] obtain aw where
    none: "ways_by_id s wid = None" and id: "way_id aw = wid" and
    byid: "ways_by_id s' = (ways_by_id s)(wid \<mapsto> aw)" and
    dom: "dom (visited_coordinates s') = dom (visited_coordinates s) \<union> {end1 aw, end2 aw}"
    by blast
  have "is_endpoint s' c \<longleftrightarrow> is_endpoint s c \<or> c = end1 aw \<or> c = end2 aw" for c
  proof
    assume "is_endpoint s' c"
    then obtain k w where kw: "ways_by_id s' k = Some w" "c = end1 w \<or> c = end2 w"
      unfolding is_endpoint_def by blast
    show "is_endpoint s c \<or> c = end1 aw \<or> c = end2 aw"
    proof (cases "k = wid")
      case True
      with kw byid show ?thesis by simp
    next
      case False
      with kw byid have "ways_by_id s k = Some w" by simp
      with kw(2) show ?thesis unfolding is_endpoint_def by blast
    qed
  next
    assume r: "is_endpoint s c \<or> c = end1 aw \<or> c = end2 aw"
    show "is_endpoint s' c"
    proof (cases "is_endpoint s c")
      case True
      then obtain k w where kw: "ways_by_id s k = Some w" "c = end1 w \<or> c = end2 w"
        unfolding is_endpoint_def by blast
      with none have "k \<noteq> wid" by auto
      with kw byid have "ways_by_id s' k = Some w" by simp
      with kw(2) show ?thesis unfolding is_endpoint_def by blast
    next
      case False
      with r have "c = end1 aw \<or> c = end2 aw" by blast
      moreover have "ways_by_id s' wid = Some aw" by (simp add: byid)
      ultimately show ?thesis unfolding is_endpoint_def by blast
    qed
  qed
  with ex dom show ?thesis unfolding entries_exact_def by blast
qed



lemma erase_first_remove1:
  assumes "\<forall>(k, w) \<in> set L. way_id w = wid \<longrightarrow> w = sw" and "way_id sw = wid"
  shows "erase_first c wid L = remove1 (c, sw) L"
  using assms
proof (induction L)
  case Nil
  then show ?case by simp
next
  case (Cons x L)
  obtain k w where x: "x = (k, w)" by (cases x)
  from Cons.prems have "\<forall>(k, w) \<in> set L. way_id w = wid \<longrightarrow> w = sw" by simp
  from Cons.IH[OF this Cons.prems(2)] have IH: "erase_first c wid L = remove1 (c, sw) L" .
  show ?case
  proof (cases "k = c \<and> wid = way_id w")
    case True
    with Cons.prems x have "w = sw" by simp
    with True x show ?thesis by simp
  next
    case False
    with Cons.prems(2) have ne: "(c, sw) \<noteq> (k, w)" by auto
    from False have "erase_first c wid ((k, w) # L) = (k, w) # erase_first c wid L"
      by auto
    moreover from ne have "remove1 (c, sw) ((k, w) # L) = (k, w) # remove1 (c, sw) L"
      by auto
    ultimately show ?thesis using IH x by simp
  qed
qed

lemma count_list_remove1:
  "count_list (remove1 x L) y = (if x = y then count_list L y - 1 else count_list L y)"
  by (induction L) auto

lemma ways_from_empty_keys: "ways_from s c = [] \<longleftrightarrow> c \<notin> keys_of (ways_by_coord s)"
  by (force simp: ways_from_empty keys_of_def)

lemma keys_of_remove1_other: "c \<noteq> k \<Longrightarrow> c \<in> keys_of (remove1 (k, v) L) \<longleftrightarrow> c \<in> keys_of L"
  by (induction L) (auto simp: keys_of_def)

lemma keys_of_remove1_subset: "c \<in> keys_of (remove1 x L) \<Longrightarrow> c \<in> keys_of L"
  using set_remove1_subset[of x L] by (auto simp: keys_of_def)

lemma entries_exact_keys:
  assumes "way_index_ok s"
  shows "entries_exact s \<longleftrightarrow> dom (visited_coordinates s) = keys_of (ways_by_coord s)"
proof -
  have "is_endpoint s c \<longleftrightarrow> c \<in> keys_of (ways_by_coord s)" for c
    using ways_from_nonempty_endpoint[OF assms, of c] ways_from_empty_keys[of s c] by blast
  then show ?thesis unfolding entries_exact_def by blast
qed

lemma remove_way_True:
  assumes "remove_way wid s = (True, s')"
  shows "\<exists>sw L1 V1 L2. ways_by_id s wid = Some sw \<and>
           L1 = erase_first (end1 sw) wid (ways_by_coord s) \<and>
           V1 = (if end1 sw \<in> keys_of L1 then visited_coordinates s
                 else (visited_coordinates s)(end1 sw := None)) \<and>
           L2 = erase_first (end2 sw) wid L1 \<and>
           ways_by_coord s' = L2 \<and>
           visited_coordinates s' = (if end2 sw \<in> keys_of L2 then V1 else V1(end2 sw := None)) \<and>
           ways_by_id s' = (ways_by_id s)(wid := None)"
proof -
  from assms obtain sw where sw: "ways_by_id s wid = Some sw"
    by (auto simp: remove_way_def get_way_def split: option.splits)
  with assms show ?thesis
    by (auto simp: remove_way_def get_way_def Let_def ways_from_empty_keys split: if_splits)
qed

lemma remove_way_False: "remove_way wid s = (False, s') \<Longrightarrow> s' = s"
  by (auto simp: remove_way_def get_way_def Let_def split: option.splits)

lemma remove_way_inv:
  assumes inv: "state_inv s" and rm: "remove_way wid s = (True, s')"
  shows "state_inv s'"
proof -
  from inv have ok: "way_index_ok s" and ex: "entries_exact s"
    and fin: "finite (dom (visited_coordinates s))"
    by (simp_all add: state_inv_def)
  from remove_way_True[OF rm] obtain sw L1 V1 L2 where
    sw: "ways_by_id s wid = Some sw" and
    L1: "L1 = erase_first (end1 sw) wid (ways_by_coord s)" and
    V1: "V1 = (if end1 sw \<in> keys_of L1 then visited_coordinates s
                 else (visited_coordinates s)(end1 sw := None))" and
    L2: "L2 = erase_first (end2 sw) wid L1" and
    bycoord: "ways_by_coord s' = L2" and
    vis: "visited_coordinates s' = (if end2 sw \<in> keys_of L2 then V1 else V1(end2 sw := None))" and
    byid: "ways_by_id s' = (ways_by_id s)(wid := None)"
    by blast
  have id: "way_id sw = wid" using way_index_id[OF ok sw] .
  have uniq: "\<forall>(k, w) \<in> set (ways_by_coord s). way_id w = wid \<longrightarrow> w = sw"
    using way_index_member[OF ok] sw by auto
  have L1': "L1 = remove1 (end1 sw, sw) (ways_by_coord s)"
    unfolding L1 by (rule erase_first_remove1[OF uniq id])
  have "set L1 \<subseteq> set (ways_by_coord s)" unfolding L1' by (rule set_remove1_subset)
  with uniq have uniq1: "\<forall>(k, w) \<in> set L1. way_id w = wid \<longrightarrow> w = sw" by blast
  have L2': "L2 = remove1 (end2 sw, sw) L1"
    unfolding L2 by (rule erase_first_remove1[OF uniq1 id])
  have ids: "way_id w = k" if "ways_by_id s' k = Some w" for k w
    using that byid way_index_id[OF ok] by (auto split: if_splits)
  have cnt: "count_list (ways_by_coord s') (c, w) =
        (if ways_by_id s' (way_id w) = Some w
         then (if c = end1 w then 1 else 0) + (if c = end2 w then 1 else 0)
         else 0)" for c w
  proof (cases "w = sw")
    case True
    then show ?thesis
      using way_index_count[OF ok, of c sw] sw id
      by (simp add: bycoord byid L2' L1' count_list_remove1)
  next
    case False
    then have "count_list (ways_by_coord s') (c, w) = count_list (ways_by_coord s) (c, w)"
      by (simp add: bycoord L2' L1' count_list_remove1)
    moreover have "way_id w = wid \<Longrightarrow> ways_by_id s (way_id w) \<noteq> Some w"
      using sw False by simp
    ultimately show ?thesis
      using way_index_count[OF ok, of c w] by (simp add: byid)
  qed
  have ok': "way_index_ok s'" unfolding way_index_ok_def using ids cnt by blast
  from ex have dom: "dom (visited_coordinates s) = keys_of (ways_by_coord s)"
    by (simp add: entries_exact_keys[OF ok])
  have "dom (visited_coordinates s') = keys_of L2"
  proof (rule set_eqI)
    fix c
    show "c \<in> dom (visited_coordinates s') \<longleftrightarrow> c \<in> keys_of L2"
    proof (cases "c = end2 sw")
      case True
      have "c \<in> keys_of L2 \<Longrightarrow> c \<in> dom V1"
      proof -
        assume a: "c \<in> keys_of L2"
        then have b: "c \<in> keys_of L1" unfolding L2' by (rule keys_of_remove1_subset)
        then have "c \<in> keys_of (ways_by_coord s)" unfolding L1' by (rule keys_of_remove1_subset)
        with dom b show ?thesis by (auto simp: V1)
      qed
      with True show ?thesis by (auto simp: vis)
    next
      case False
      then have k2: "c \<in> keys_of L2 \<longleftrightarrow> c \<in> keys_of L1"
        unfolding L2' by (simp add: keys_of_remove1_other)
      from False have d2: "c \<in> dom (visited_coordinates s') \<longleftrightarrow> c \<in> dom V1"
        by (auto simp: vis)
      show ?thesis
      proof (cases "c = end1 sw")
        case True
        have "c \<in> keys_of L1 \<Longrightarrow> c \<in> keys_of (ways_by_coord s)"
          unfolding L1' by (rule keys_of_remove1_subset)
        with True dom show ?thesis unfolding k2 d2 by (auto simp: V1)
      next
        case nc: False
        then have "c \<in> keys_of L1 \<longleftrightarrow> c \<in> keys_of (ways_by_coord s)"
          unfolding L1' by (simp add: keys_of_remove1_other)
        moreover from nc have "c \<in> dom V1 \<longleftrightarrow> c \<in> dom (visited_coordinates s)"
          by (auto simp: V1)
        ultimately show ?thesis unfolding k2 d2 using dom by simp
      qed
    qed
  qed
  then have ex': "entries_exact s'"
    by (simp add: entries_exact_keys[OF ok'] bycoord)
  have "dom (visited_coordinates s') \<subseteq> dom (visited_coordinates s)"
    by (auto simp: vis V1 split: if_splits)
  with fin have "finite (dom (visited_coordinates s'))" by (rule rev_finite_subset)
  with ok' ex' show ?thesis by (simp add: state_inv_def)
qed



section \<open>Reachable states are graph states\<close>

lemma same_graph_clean: "same_graph s (clean_for_search t s)"
  by (auto simp: same_graph_def clean_for_search_def Let_def dom_def)

lemma same_graph_way_index_ok: "same_graph s s' \<Longrightarrow> way_index_ok s \<Longrightarrow> way_index_ok s'"
  by (simp add: same_graph_def way_index_ok_def)

lemma same_graph_is_endpoint: "same_graph s s' \<Longrightarrow> is_endpoint s' c = is_endpoint s c"
  by (simp add: same_graph_def is_endpoint_def)

lemma same_graph_state_inv: "same_graph s s' \<Longrightarrow> state_inv s \<Longrightarrow> state_inv s'"
  using same_graph_way_index_ok[of s s'] same_graph_is_endpoint[of s s']
  by (auto simp: state_inv_def entries_exact_def same_graph_def)

lemma route_any_same_graph:
  assumes "route_any fuel a b s = Inr (r, s')"
  shows "same_graph s s'"
proof (cases "ways_from s b = [] \<or> ways_from s a = []")
  case True
  with assms show ?thesis by (simp add: route_any_def)
next
  case False
  with assms obtain s2 where
    run: "search_any fuel a b 0 (clean_for_search NORMAL s) = Inr s2" and
    s': "s' = s2\<lparr>chosen_route := rev (chosen_route s2)\<rparr>"
    by (auto simp: route_any_def Let_def split: sum.splits)
  from search_any_frame[OF run] have "same_graph (clean_for_search NORMAL s) s2" by simp
  with same_graph_clean[of s NORMAL] have "same_graph s s2" by (rule same_graph_trans)
  then show ?thesis by (simp add: s' same_graph_def)
qed

lemma route_with_cycle_same_graph:
  assumes "route_with_cycle fuel a s = Inr (r, s')"
  shows "same_graph s s'"
proof (cases "ways_from s a = []")
  case True
  with assms show ?thesis by (simp add: route_with_cycle_def)
next
  case False
  with assms obtain s2 where
    run: "search_cycle fuel a NO_COORD (clean_for_search CYCLE s) = Inr s2" and
    s': "s' = s2\<lparr>cyclic_route := rev (cyclic_route s2)\<rparr>"
    by (auto simp: route_with_cycle_def Let_def split: sum.splits)
  from search_cycle_frame[OF run] have "same_graph (clean_for_search CYCLE s) s2" by simp
  with same_graph_clean[of s CYCLE] have "same_graph s s2" by (rule same_graph_trans)
  then show ?thesis by (simp add: s' same_graph_def)
qed

lemma state_inv_init: "state_inv (init_state b)"
  by (simp add: state_inv_def way_index_ok_def entries_exact_def is_endpoint_def init_state_def)

lemma state_inv_clear: "state_inv (clear_ways s)"
  by (simp add: state_inv_def way_index_ok_def entries_exact_def is_endpoint_def clear_ways_def)

lemma add_way_inv:
  assumes inv: "state_inv s" and add: "add_way wid coords s = Some (b, s')"
  shows "state_inv s'"
proof (cases b)
  case True
  from inv have ok: "way_index_ok s" and ex: "entries_exact s"
    and fin: "finite (dom (visited_coordinates s))"
    by (simp_all add: state_inv_def)
  from add True have add': "add_way wid coords s = Some (True, s')" by simp
  from add_way_True[OF add'] fin have "finite (dom (visited_coordinates s'))" by auto
  with add_way_way_index_ok[OF ok add'] add_way_entries_exact[OF ok ex add']
  show ?thesis by (simp add: state_inv_def)
next
  case False
  with add add_way_False[of wid coords s s'] inv show ?thesis by simp
qed

lemma reachable_state_inv: "reachable s \<Longrightarrow> state_inv s"
proof (induction rule: reachable.induct)
  case (reachable_init b)
  show ?case by (rule state_inv_init)
next
  case (reachable_add_way s wid coords b s')
  then show ?case using add_way_inv by blast
next
  case (reachable_remove_way s wid b s')
  then show ?case using remove_way_inv[of s wid s'] remove_way_False[of wid s s'] by (cases b) auto
next
  case (reachable_clear_ways s)
  show ?case by (rule state_inv_clear)
next
  case (reachable_route_any s fuel a b r s')
  then show ?case using route_any_same_graph same_graph_state_inv by blast
next
  case (reachable_route_with_cycle s fuel a rc s')
  then show ?case using route_with_cycle_same_graph same_graph_state_inv by blast
qed

lemma state_inv_graph_ok: "state_inv s \<Longrightarrow> graph_ok s"
  by (auto simp: state_inv_def graph_ok_def crossroads_cover_def entries_exact_def)

lemma reachable_graph_ok: "reachable s \<Longrightarrow> graph_ok s"
  using reachable_state_inv state_inv_graph_ok by blast



section \<open>Visited coordinates stay visited\<close>

lemma keeps_visited_refl [simp]: "keeps_visited s s"
  by (simp add: keeps_visited_def)

lemma keeps_visited_trans: "keeps_visited s s1 \<Longrightarrow> keeps_visited s1 s2 \<Longrightarrow> keeps_visited s s2"
  unfolding keeps_visited_def by blast

lemma keeps_visited_mark:
  "\<not> is_visited s c \<Longrightarrow>
   keeps_visited s (s\<lparr>visited_coordinates := (visited_coordinates s)(c \<mapsto> cr')\<rparr>)"
  by (auto simp: keeps_visited_def is_visited_def)

lemma keeps_visited_is_visited: "keeps_visited s s' \<Longrightarrow> is_visited s c \<Longrightarrow> is_visited s' c"
  unfolding keeps_visited_def is_visited_def by blast

lemma unvisited_subset_dom: "unvisited s \<subseteq> dom (visited_coordinates s)"
  by (auto simp: unvisited_def)

lemma unvisited_iff: "c \<in> unvisited s \<longleftrightarrow> c \<in> dom (visited_coordinates s) \<and> \<not> is_visited s c"
  by (auto simp: unvisited_def is_visited_def)

lemma unvisited_mono:
  "same_graph s s' \<Longrightarrow> keeps_visited s s' \<Longrightarrow> unvisited s' \<subseteq> unvisited s"
  using keeps_visited_is_visited[of s s'] by (auto simp: unvisited_iff same_graph_def)

lemma unvisited_mark:
  "visited cr' \<Longrightarrow>
   unvisited (s\<lparr>visited_coordinates := (visited_coordinates s)(c \<mapsto> cr')\<rparr>) = unvisited s - {c}"
  by (auto simp: unvisited_def)

lemma same_graph_lookups_ok: "same_graph s s' \<Longrightarrow> lookups_ok s \<Longrightarrow> lookups_ok s'"
  by (simp add: lookups_ok_def same_graph_def ways_from_def)

lemma graph_ok_lookups_ok:
  assumes "graph_ok s"
  shows "lookups_ok s"
proof -
  from assms have ok: "way_index_ok s" and cov: "crossroads_cover s"
    by (simp_all add: graph_ok_def)
  have "c' \<in> dom (visited_coordinates s) \<and> wid \<in> dom (ways_by_id s)"
    if "(wid, c') \<in> set (ways_from s c)" for c wid c'
  proof -
    from that have "\<exists>w. ways_by_id s wid = Some w \<and>
                ((end1 w = c \<and> end2 w = c') \<or> (end2 w = c \<and> end1 w = c'))"
      by (simp add: incidence_iff[OF ok])
    then obtain w where
      w: "ways_by_id s wid = Some w" "c' = end1 w \<or> c' = end2 w"
      by auto
    then have "is_endpoint s c'" unfolding is_endpoint_def by blast
    with cov w(1) show ?thesis by (auto simp: crossroads_cover_def)
  qed
  then show ?thesis unfolding lookups_ok_def by blast
qed

lemma graph_ok_start_entry:
  assumes "graph_ok s" and "ways_from s c \<noteq> []"
  shows "c \<in> dom (visited_coordinates s)"
proof -
  from assms(1) have ok: "way_index_ok s" and cov: "crossroads_cover s"
    by (simp_all add: graph_ok_def)
  from assms(2) ways_from_nonempty_endpoint[OF ok] have "is_endpoint s c" by simp
  with cov show ?thesis by (simp add: crossroads_cover_def)
qed

text \<open>What a search has marked stays as it was marked.\<close>

lemma search_any_keeps_all:
  "(\<forall>n c g l s s'. search_any n c g l s = Inr s' \<longrightarrow> (\<not> is_visited s c \<longrightarrow> keeps_visited s s')) \<and>
   (\<forall>n c g l ws s s'. search_any_loop n c g l ws s = Inr s' \<longrightarrow> keeps_visited s s')"
proof (rule search_any_run_induct, goal_cases)
  case (1 n c l s cr)
  then show ?case by (auto simp: keeps_visited_def is_visited_def)
next
  case (2 n c g l s cr s1 s')
  then show ?case using keeps_visited_mark[of s c] keeps_visited_trans by blast
next
  case (3 n c g l s)
  then show ?case by simp
next
  case (4 n c g l wid c' rest s cr s')
  then show ?case by simp
next
  case (5 n c g l wid c' rest s cr w s1 cr1)
  then have "keeps_visited s s1" by (simp add: is_visited_def)
  then show ?case by (simp add: keeps_visited_def)
next
  case (6 n c g l wid c' rest s cr w s1 s')
  then have "keeps_visited s s1" by (simp add: is_visited_def)
  with 6 show ?case using keeps_visited_trans by blast
qed

lemmas search_any_keeps = search_any_keeps_all[THEN conjunct1, rule_format]
lemmas search_any_loop_keeps = search_any_keeps_all[THEN conjunct2, rule_format]

lemma search_cycle_keeps_all:
  "(\<forall>n c p s s'. search_cycle n c p s = Inr s' \<longrightarrow> keeps_visited s s') \<and>
   (\<forall>n c p ws s s'. search_cycle_loop n c p ws s = Inr s' \<longrightarrow> keeps_visited s s')"
proof (rule search_cycle_run_induct, goal_cases)
  case (1 n c p s cr)
  then show ?case by (simp add: keeps_visited_def)
next
  case (2 n c p s cr s1 s')
  then have "\<not> is_visited s c" by (simp add: is_visited_def)
  with 2 show ?case using keeps_visited_mark[of s c] keeps_visited_trans by blast
next
  case (3 n c p s)
  then show ?case by simp
next
  case (4 n c p wid rest s s')
  then show ?case by simp
next
  case (5 n c p wid c' rest s s1)
  then show ?case by (simp add: keeps_visited_def)
next
  case (6 n c p wid c' rest s s1 s')
  then show ?case using keeps_visited_trans by blast
qed

lemmas search_cycle_keeps = search_cycle_keeps_all[THEN conjunct1, rule_format]
lemmas search_cycle_loop_keeps = search_cycle_keeps_all[THEN conjunct2, rule_format]



section \<open>The searches return\<close>

lemma search_any_returns:
  "lookups_ok s \<Longrightarrow> finite (unvisited s) \<Longrightarrow> c \<in> unvisited s \<Longrightarrow> card (unvisited s) \<le> n \<Longrightarrow>
     \<exists>s'. search_any n c g l s = Inr s'"
  and search_any_loop_returns:
  "lookups_ok s \<Longrightarrow> finite (unvisited s) \<Longrightarrow> c \<in> dom (visited_coordinates s) \<Longrightarrow>
   set ws \<subseteq> set (ways_from s c) \<Longrightarrow> card (unvisited s) \<le> n \<Longrightarrow>
     \<exists>s'. search_any_loop n c g l ws s = Inr s'"
proof (induction n c g l s and n c g l ws s rule: search_any_search_any_loop.induct)
  case (1 current goal route_length s)
  then have "unvisited s = {}" by simp
  with 1 show ?case by simp
next
  case (2 n current goal route_length s)
  from "2.prems"(3) obtain cr where cr: "visited_coordinates s current = Some cr" "\<not> visited cr"
    by (auto simp: unvisited_def)
  define s1 where "s1 = s\<lparr>visited_coordinates := (visited_coordinates s)(current \<mapsto> cr\<lparr>distance := route_length, visited := True\<rparr>)\<rparr>"
  show ?case
  proof (cases "current = goal")
    case True
    with cr show ?thesis by simp
  next
    case False
    have sg: "same_graph s s1" unfolding s1_def using cr(1) by (rule same_graph_mark)
    have un: "unvisited s1 = unvisited s - {current}"
      unfolding s1_def by (rule unvisited_mark) simp
    have "card (unvisited s1) \<le> n"
      using "2.prems"(2,3,4) un by (simp add: card_Diff_singleton)
    moreover have "finite (unvisited s1)" using "2.prems"(2) un by simp
    moreover have "current \<in> dom (visited_coordinates s1)" by (simp add: s1_def)
    moreover have "lookups_ok s1" using sg "2.prems"(1) by (rule same_graph_lookups_ok)
    ultimately have "\<exists>s'. search_any_loop n current goal route_length (ways_from s1 current) s1 = Inr s'"
      using "2.IH"[OF cr(1) s1_def False] by simp
    with cr False show ?thesis by (simp add: s1_def Let_def)
  qed
next
  case (3 n current goal route_length s)
  then show ?case by simp
next
  case (4 n current goal route_length wid c rest s)
  from "4.prems"(4) have inc: "(wid, c) \<in> set (ways_from s current)"
    and rest: "set rest \<subseteq> set (ways_from s current)" by simp_all
  from inc "4.prems"(1) obtain cr w where
    cr: "visited_coordinates s c = Some cr" and w: "ways_by_id s wid = Some w"
    unfolding lookups_ok_def by blast
  show ?case
  proof (cases "visited cr")
    case True
    from "4.IH"(1)[OF cr True "4.prems"(1,2,3) rest "4.prems"(5)] cr True show ?thesis by simp
  next
    case False
    with cr have cu: "c \<in> unvisited s" by (auto simp: unvisited_def)
    from "4.IH"(2)[OF cr False w "4.prems"(1,2) cu "4.prems"(5)]
    obtain s1 where s1: "search_any n c goal (int_add route_length (way_length w)) s = Inr s1" by blast
    from search_any_frame[OF s1] have sg: "same_graph s s1" by simp
    from cu have "\<not> is_visited s c" by (simp add: unvisited_iff)
    from search_any_keeps[OF s1 this] have kv: "keeps_visited s s1" .
    from sg "4.prems"(3) obtain cr1 where cr1: "visited_coordinates s1 current = Some cr1"
      by (auto simp: same_graph_def)
    show ?thesis
    proof (cases "route_found s1")
      case True
      with cr False w s1 cr1 show ?thesis by simp
    next
      case nf: False
      have sub: "unvisited s1 \<subseteq> unvisited s" using sg kv by (rule unvisited_mono)
      have "lookups_ok s1" using sg "4.prems"(1) by (rule same_graph_lookups_ok)
      moreover have "finite (unvisited s1)" using sub "4.prems"(2) by (rule finite_subset)
      moreover have "current \<in> dom (visited_coordinates s1)" using cr1 by auto
      moreover have "set rest \<subseteq> set (ways_from s1 current)"
        using rest same_graph_ways_from[OF sg] by simp
      moreover have "card (unvisited s1) \<le> n"
        using card_mono[OF "4.prems"(2) sub] "4.prems"(5) by simp
      ultimately have "\<exists>s'. search_any_loop n current goal route_length rest s1 = Inr s'"
        using "4.IH"(3)[OF cr False w s1 nf] by simp
      with cr False w s1 nf show ?thesis by simp
    qed
  qed
qed

lemma search_cycle_returns:
  "lookups_ok s \<Longrightarrow> finite (unvisited s) \<Longrightarrow> c \<in> dom (visited_coordinates s) \<Longrightarrow>
   card (unvisited s) < n \<Longrightarrow> \<exists>s'. search_cycle n c p s = Inr s'"
  and search_cycle_loop_returns:
  "lookups_ok s \<Longrightarrow> finite (unvisited s) \<Longrightarrow>
   set ws \<subseteq> set (ways_from s c) \<Longrightarrow> card (unvisited s) < n \<Longrightarrow>
     \<exists>s'. search_cycle_loop n c p ws s = Inr s'"
proof (induction n c p s and n c p ws s rule: search_cycle_search_cycle_loop.induct)
  case (1 current previous s)
  then show ?case by simp
next
  case (2 n current previous s)
  from "2.prems"(3) obtain cr where cr: "visited_coordinates s current = Some cr" by auto
  define s1 where "s1 = s\<lparr>visited_coordinates := (visited_coordinates s)(current \<mapsto> cr\<lparr>visited := True\<rparr>)\<rparr>"
  show ?case
  proof (cases "visited cr")
    case True
    with cr show ?thesis by simp
  next
    case False
    have sg: "same_graph s s1" unfolding s1_def using cr by (rule same_graph_mark)
    have un: "unvisited s1 = unvisited s - {current}"
      unfolding s1_def by (rule unvisited_mark) simp
    have "current \<in> unvisited s" using cr False by (auto simp: unvisited_def)
    then have "card (unvisited s1) < n"
      using "2.prems"(2,4) un card_Diff1_less[of "unvisited s" current] by simp
    moreover have "finite (unvisited s1)" using "2.prems"(2) un by simp
    moreover have "lookups_ok s1" using sg "2.prems"(1) by (rule same_graph_lookups_ok)
    ultimately have "\<exists>s'. search_cycle_loop n current previous (ways_from s1 current) s1 = Inr s'"
      using "2.IH"[OF cr False s1_def] by simp
    with cr False show ?thesis by (simp add: s1_def Let_def)
  qed
next
  case (3 n current previous s)
  then show ?case by simp
next
  case (4 n current previous wid c rest s)
  from "4.prems"(3) have inc: "(wid, c) \<in> set (ways_from s current)"
    and rest: "set rest \<subseteq> set (ways_from s current)" by simp_all
  show ?case
  proof (cases "c = previous")
    case True
    from "4.IH"(1)[OF True "4.prems"(1,2) rest "4.prems"(4)] True show ?thesis by simp
  next
    case False
    from inc "4.prems"(1) have cd: "c \<in> dom (visited_coordinates s)"
      unfolding lookups_ok_def by blast
    from "4.IH"(2)[OF False "4.prems"(1,2) cd "4.prems"(4)]
    obtain s1 where s1: "search_cycle n c current s = Inr s1" by blast
    from search_cycle_frame[OF s1] have sg: "same_graph s s1" by simp
    from search_cycle_keeps[OF s1] have kv: "keeps_visited s s1" .
    show ?thesis
    proof (cases "route_found s1")
      case True
      with False s1 show ?thesis by simp
    next
      case nf: False
      have sub: "unvisited s1 \<subseteq> unvisited s" using sg kv by (rule unvisited_mono)
      have "lookups_ok s1" using sg "4.prems"(1) by (rule same_graph_lookups_ok)
      moreover have "finite (unvisited s1)" using sub "4.prems"(2) by (rule finite_subset)
      moreover have "set rest \<subseteq> set (ways_from s1 current)"
        using rest same_graph_ways_from[OF sg] by simp
      moreover have "card (unvisited s1) < n"
        using card_mono[OF "4.prems"(2) sub] "4.prems"(4) by simp
      ultimately have "\<exists>s'. search_cycle_loop n current previous rest s1 = Inr s'"
        using "4.IH"(3)[OF False s1 nf] by simp
      with False s1 nf show ?thesis by simp
    qed
  qed
qed

lemma unvisited_clean: "unvisited (clean_for_search t s) = dom (visited_coordinates s)"
  by (auto simp: unvisited_def clean_for_search_def Let_def)

lemma route_any_returns:
  assumes ok: "graph_ok s" and fuel: "card (dom (visited_coordinates s)) \<le> fuel"
  shows "\<exists>r s'. route_any fuel a b s = Inr (r, s')"
proof (cases "ways_from s b = [] \<or> ways_from s a = []")
  case True
  then show ?thesis by (simp add: route_any_def)
next
  case False
  let ?s0 = "clean_for_search NORMAL s"
  have sg: "same_graph s ?s0" by (rule same_graph_clean)
  have "lookups_ok ?s0" using sg graph_ok_lookups_ok[OF ok] by (rule same_graph_lookups_ok)
  moreover have "finite (unvisited ?s0)" using ok by (simp add: unvisited_clean graph_ok_def)
  moreover have "a \<in> unvisited ?s0"
    using graph_ok_start_entry[OF ok, of a] False by (simp add: unvisited_clean)
  moreover have "card (unvisited ?s0) \<le> fuel" using fuel by (simp add: unvisited_clean)
  ultimately obtain s2 where "search_any fuel a b 0 ?s0 = Inr s2"
    using search_any_returns by blast
  with False show ?thesis by (simp add: route_any_def Let_def)
qed

lemma route_with_cycle_returns:
  assumes ok: "graph_ok s" and fuel: "card (dom (visited_coordinates s)) < fuel"
  shows "\<exists>r s'. route_with_cycle fuel a s = Inr (r, s')"
proof (cases "ways_from s a = []")
  case True
  then show ?thesis by (simp add: route_with_cycle_def)
next
  case False
  let ?s0 = "clean_for_search CYCLE s"
  have sg: "same_graph s ?s0" by (rule same_graph_clean)
  have "lookups_ok ?s0" using sg graph_ok_lookups_ok[OF ok] by (rule same_graph_lookups_ok)
  moreover have "finite (unvisited ?s0)" using ok by (simp add: unvisited_clean graph_ok_def)
  moreover have "a \<in> dom (visited_coordinates ?s0)"
    using graph_ok_start_entry[OF ok, of a] False sg by (simp add: same_graph_def)
  moreover have "card (unvisited ?s0) < fuel" using fuel by (simp add: unvisited_clean)
  ultimately obtain s2 where "search_cycle fuel a NO_COORD ?s0 = Inr s2"
    using search_cycle_returns by blast
  with False show ?thesis by (simp add: route_with_cycle_def Let_def)
qed



section \<open>The route that \<open>search_any\<close> builds\<close>

lemma way_joins_cong: "ways_by_id s' = ways_by_id s \<Longrightarrow> way_joins s' = way_joins s"
  by (simp add: way_joins_def fun_eq_iff)

lemma way_leads_cong: "ways_by_id s' = ways_by_id s \<Longrightarrow> way_leads s' = way_leads s"
  using way_joins_cong[of s' s] by (auto simp: way_leads_def fun_eq_iff split: option.splits)

lemma route_links_cong:
  assumes "ways_by_id s' = ways_by_id s"
  shows "route_links s' r = route_links s r"
proof -
  have wl: "way_leads s' = way_leads s" using assms by (rule way_leads_cong)
  show ?thesis by (induction r rule: induct_list012) (auto simp: wl)
qed

lemma route_from_to_cong:
  "same_graph s s' \<Longrightarrow> route_from_to s' c l g r = route_from_to s c l g r"
  using route_links_cong[of s' s r] by (simp add: route_from_to_def same_graph_def)

lemma search_any_outcome_cong:
  "same_graph s0 s \<Longrightarrow> chosen_route s = chosen_route s0 \<Longrightarrow>
   search_any_outcome s s' c l g \<Longrightarrow> search_any_outcome s0 s' c l g"
proof -
  assume sg: "same_graph s0 s" and eq: "chosen_route s = chosen_route s0"
    and out: "search_any_outcome s s' c l g"
  show ?thesis
  proof (cases "route_found s'")
    case True
    with out obtain r where "chosen_route s' = chosen_route s @ rev r" "route_from_to s c l g r"
      unfolding search_any_outcome_def by auto
    with eq route_from_to_cong[OF sg, of c l g r] True show ?thesis
      unfolding search_any_outcome_def by auto
  next
    case False
    with out eq show ?thesis unfolding search_any_outcome_def by simp
  qed
qed

lemma route_from_to_single: "route_from_to s c l c [(c, NO_WAY, l)]"
  by (simp add: route_from_to_def)

lemma route_from_to_step:
  assumes ok: "way_index_ok s" and inc: "(wid, c') \<in> set (ways_from s c)"
    and w: "ways_by_id s wid = Some w" and r: "route_from_to s c' (int_add l (way_length w)) g r"
  shows "route_from_to s c l g ((c, wid, l) # r)"
proof -
  from r obtain wid' d' rest where r': "r = (c', wid', d') # rest"
    and d': "d' = int_add l (way_length w)"
    by (cases r) (auto simp: route_from_to_def)
  from inc have "\<exists>w0. ways_by_id s wid = Some w0 \<and>
                ((end1 w0 = c \<and> end2 w0 = c') \<or> (end2 w0 = c \<and> end1 w0 = c'))"
    by (simp add: incidence_iff[OF ok])
  with w have "way_joins s wid c c' (way_length w)"
    by (auto simp: way_joins_def)
  with w have "way_leads s wid c l c' d'"
    by (simp add: way_leads_def d' distance_step_int_add)
  moreover from r have "route_links s r" by (simp add: route_from_to_def)
  ultimately have links: "route_links s ((c, wid, l) # r)" by (simp add: r')
  from r have ne: "r \<noteq> []" by (simp add: route_from_to_def)
  then have "last ((c, wid, l) # r) = last r" by simp
  with r links show ?thesis by (simp add: route_from_to_def)
qed

lemma search_any_outcome_found:
  "route_found s' \<Longrightarrow> chosen_route s' = chosen_route s @ rev r \<Longrightarrow> route_from_to s c l g r \<Longrightarrow>
   search_any_outcome s s' c l g"
  unfolding search_any_outcome_def by auto

lemma search_any_outcome_foundD:
  "search_any_outcome s s' c l g \<Longrightarrow> route_found s' \<Longrightarrow>
   \<exists>r. chosen_route s' = chosen_route s @ rev r \<and> route_from_to s c l g r"
  unfolding search_any_outcome_def by simp

lemma search_any_outcome_notD:
  "search_any_outcome s s' c l g \<Longrightarrow> \<not> route_found s' \<Longrightarrow> chosen_route s' = chosen_route s"
  unfolding search_any_outcome_def by simp

lemma search_any_route_all:
  "(\<forall>n c g l s s'. search_any n c g l s = Inr s' \<longrightarrow>
      (way_index_ok s \<and> \<not> route_found s \<and> \<not> is_visited s c \<longrightarrow> search_any_outcome s s' c l g)) \<and>
   (\<forall>n c g l ws s s'. search_any_loop n c g l ws s = Inr s' \<longrightarrow>
      (way_index_ok s \<and> \<not> route_found s \<and> set ws \<subseteq> set (ways_from s c) \<and>
       (\<exists>cr. visited_coordinates s c = Some cr \<and> visited cr \<and> distance cr = l)
       \<longrightarrow> search_any_outcome s s' c l g))"
proof (rule search_any_run_induct, goal_cases)
  case (1 n c l s cr)
  show ?case
    by (intro impI, rule search_any_outcome_found[where r = "[(c, NO_WAY, l)]"])
       (simp_all add: route_from_to_single)
next
  case (2 n c g l s cr s1 s')
  show ?case
  proof (intro impI, elim conjE)
    assume ok: "way_index_ok s" and nf: "\<not> route_found s"
    have sg: "same_graph s s1" unfolding "2"(3) using "2"(1) by (rule same_graph_mark)
    have "way_index_ok s1" using sg ok by (rule same_graph_way_index_ok)
    moreover have "\<not> route_found s1" using nf by (simp add: "2"(3))
    moreover have "\<exists>cr. visited_coordinates s1 c = Some cr \<and> visited cr \<and> distance cr = l"
      by (simp add: "2"(3))
    ultimately have "search_any_outcome s1 s' c l g" using "2"(5) by blast
    moreover have "chosen_route s1 = chosen_route s" by (simp add: "2"(3))
    ultimately show "search_any_outcome s s' c l g" using sg search_any_outcome_cong by blast
  qed
next
  case (3 n c g l s)
  then show ?case by (simp add: search_any_outcome_def)
next
  case (4 n c g l wid c' rest s cr s')
  show ?case
  proof (intro impI, elim conjE exE)
    fix cr0
    assume ok: "way_index_ok s" and nf: "\<not> route_found s"
      and sub: "set ((wid, c') # rest) \<subseteq> set (ways_from s c)"
      and cr0: "visited_coordinates s c = Some cr0" "visited cr0" "distance cr0 = l"
    from sub have "set rest \<subseteq> set (ways_from s c)" by simp
    with "4"(4) ok nf cr0 show "search_any_outcome s s' c l g" by blast
  qed
next
  case (5 n c g l wid c' rest s cr w s1 cr1)
  show ?case
  proof (intro impI, elim conjE exE)
    fix cr0
    assume ok: "way_index_ok s" and nf: "\<not> route_found s"
      and sub: "set ((wid, c') # rest) \<subseteq> set (ways_from s c)"
      and cr0: "visited_coordinates s c = Some cr0" "visited cr0" "distance cr0 = l"
    have nv: "\<not> is_visited s c'" using "5"(1,2) by (simp add: is_visited_def)
    from "5"(5) ok nf nv have "search_any_outcome s s1 c' (int_add l (way_length w)) g" by blast
    from search_any_outcome_foundD[OF this "5"(6)] obtain r1 where
      r1: "chosen_route s1 = chosen_route s @ rev r1" "route_from_to s c' (int_add l (way_length w)) g r1"
      by blast
    from search_any_keeps[OF "5"(4) nv] cr0 have "visited_coordinates s1 c = Some cr0"
      by (simp add: keeps_visited_def)
    with "5"(7) cr0 have d: "distance cr1 = l" by simp
    from sub have inc: "(wid, c') \<in> set (ways_from s c)" by simp
    have "route_from_to s c l g ((c, wid, l) # r1)"
      using ok inc "5"(3) r1(2) by (rule route_from_to_step)
    then show "search_any_outcome s
          (s1\<lparr>chosen_route := chosen_route s1 @ [(c, wid, distance cr1)]\<rparr>) c l g"
      by (rule search_any_outcome_found[rotated 2]) (simp_all add: r1(1) d "5"(6))
  qed
next
  case (6 n c g l wid c' rest s cr w s1 s')
  show ?case
  proof (intro impI, elim conjE exE)
    fix cr0
    assume ok: "way_index_ok s" and nf: "\<not> route_found s"
      and sub: "set ((wid, c') # rest) \<subseteq> set (ways_from s c)"
      and cr0: "visited_coordinates s c = Some cr0" "visited cr0" "distance cr0 = l"
    have nv: "\<not> is_visited s c'" using "6"(1,2) by (simp add: is_visited_def)
    from "6"(5) ok nf nv have "search_any_outcome s s1 c' (int_add l (way_length w)) g" by blast
    from search_any_outcome_notD[OF this "6"(6)] have cr_eq: "chosen_route s1 = chosen_route s" .
    from search_any_frame[OF "6"(4)] have sg: "same_graph s s1" by simp
    from search_any_keeps[OF "6"(4) nv] cr0 have "visited_coordinates s1 c = Some cr0"
      by (simp add: keeps_visited_def)
    with cr0 have "\<exists>cr. visited_coordinates s1 c = Some cr \<and> visited cr \<and> distance cr = l"
      by simp
    moreover have "way_index_ok s1" using sg ok by (rule same_graph_way_index_ok)
    moreover have "set rest \<subseteq> set (ways_from s1 c)"
      using sub same_graph_ways_from[OF sg] by simp
    ultimately have "search_any_outcome s1 s' c l g" using "6"(6,8) by blast
    with sg cr_eq show "search_any_outcome s s' c l g" using search_any_outcome_cong by blast
  qed
qed

lemmas search_any_route = search_any_route_all[THEN conjunct1, rule_format]



section \<open>No lookup fails\<close>

lemma search_any_in_range:
  "lookups_ok s \<Longrightarrow> c \<in> dom (visited_coordinates s) \<Longrightarrow> search_any n c g l s \<noteq> Inl out_of_range"
  and search_any_loop_in_range:
  "lookups_ok s \<Longrightarrow> c \<in> dom (visited_coordinates s) \<Longrightarrow> set ws \<subseteq> set (ways_from s c) \<Longrightarrow>
     search_any_loop n c g l ws s \<noteq> Inl out_of_range"
proof (induction n c g l s and n c g l ws s rule: search_any_search_any_loop.induct)
  case (1 current goal route_length s)
  then show ?case by simp
next
  case (2 n current goal route_length s)
  from "2.prems"(2) obtain cr where cr: "visited_coordinates s current = Some cr" by auto
  define s1 where "s1 = s\<lparr>visited_coordinates := (visited_coordinates s)(current \<mapsto> cr\<lparr>distance := route_length, visited := True\<rparr>)\<rparr>"
  show ?case
  proof (cases "current = goal")
    case True
    with cr show ?thesis by simp
  next
    case False
    have sg: "same_graph s s1" unfolding s1_def using cr by (rule same_graph_mark)
    have "lookups_ok s1" using sg "2.prems"(1) by (rule same_graph_lookups_ok)
    moreover have "current \<in> dom (visited_coordinates s1)" by (simp add: s1_def)
    ultimately have "search_any_loop n current goal route_length (ways_from s1 current) s1 \<noteq> Inl out_of_range"
      using "2.IH"[OF cr s1_def False] by simp
    with cr False show ?thesis by (simp add: s1_def Let_def)
  qed
next
  case (3 n current goal route_length s)
  then show ?case by simp
next
  case (4 n current goal route_length wid c rest s)
  from "4.prems"(3) have inc: "(wid, c) \<in> set (ways_from s current)"
    and rest: "set rest \<subseteq> set (ways_from s current)" by simp_all
  from inc "4.prems"(1) obtain cr w where
    cr: "visited_coordinates s c = Some cr" and w: "ways_by_id s wid = Some w"
    unfolding lookups_ok_def by blast
  show ?case
  proof (cases "visited cr")
    case True
    from "4.IH"(1)[OF cr True "4.prems"(1,2) rest] cr True show ?thesis by simp
  next
    case False
    have sub: "search_any n c goal (int_add route_length (way_length w)) s \<noteq> Inl out_of_range"
      using "4.IH"(2)[OF cr False w "4.prems"(1)] cr by auto
    show ?thesis
    proof (cases "search_any n c goal (int_add route_length (way_length w)) s")
      case (Inl e)
      with sub cr False w show ?thesis by auto
    next
      case (Inr s1)
      from search_any_frame[OF Inr] have sg: "same_graph s s1" by simp
      from sg "4.prems"(2) obtain cr1 where cr1: "visited_coordinates s1 current = Some cr1"
        by (auto simp: same_graph_def)
      show ?thesis
      proof (cases "route_found s1")
        case True
        with cr False w Inr cr1 show ?thesis by simp
      next
        case nf: False
        have "lookups_ok s1" using sg "4.prems"(1) by (rule same_graph_lookups_ok)
        moreover have "current \<in> dom (visited_coordinates s1)" using cr1 by auto
        moreover have "set rest \<subseteq> set (ways_from s1 current)"
          using rest same_graph_ways_from[OF sg] by simp
        ultimately have "search_any_loop n current goal route_length rest s1 \<noteq> Inl out_of_range"
          using "4.IH"(3)[OF cr False w Inr nf] by simp
        with cr False w Inr nf show ?thesis by simp
      qed
    qed
  qed
qed

lemma search_cycle_in_range:
  "lookups_ok s \<Longrightarrow> c \<in> dom (visited_coordinates s) \<Longrightarrow> search_cycle n c p s \<noteq> Inl out_of_range"
  and search_cycle_loop_in_range:
  "lookups_ok s \<Longrightarrow> set ws \<subseteq> set (ways_from s c) \<Longrightarrow>
     search_cycle_loop n c p ws s \<noteq> Inl out_of_range"
proof (induction n c p s and n c p ws s rule: search_cycle_search_cycle_loop.induct)
  case (1 current previous s)
  then show ?case by simp
next
  case (2 n current previous s)
  from "2.prems"(2) obtain cr where cr: "visited_coordinates s current = Some cr" by auto
  define s1 where "s1 = s\<lparr>visited_coordinates := (visited_coordinates s)(current \<mapsto> cr\<lparr>visited := True\<rparr>)\<rparr>"
  show ?case
  proof (cases "visited cr")
    case True
    with cr show ?thesis by simp
  next
    case False
    have sg: "same_graph s s1" unfolding s1_def using cr by (rule same_graph_mark)
    have "lookups_ok s1" using sg "2.prems"(1) by (rule same_graph_lookups_ok)
    then have "search_cycle_loop n current previous (ways_from s1 current) s1 \<noteq> Inl out_of_range"
      using "2.IH"[OF cr False s1_def] by simp
    with cr False show ?thesis by (simp add: s1_def Let_def)
  qed
next
  case (3 n current previous s)
  then show ?case by simp
next
  case (4 n current previous wid c rest s)
  from "4.prems"(2) have inc: "(wid, c) \<in> set (ways_from s current)"
    and rest: "set rest \<subseteq> set (ways_from s current)" by simp_all
  show ?case
  proof (cases "c = previous")
    case True
    from "4.IH"(1)[OF True "4.prems"(1) rest] True show ?thesis by simp
  next
    case False
    from inc "4.prems"(1) have cd: "c \<in> dom (visited_coordinates s)"
      unfolding lookups_ok_def by blast
    have sub: "search_cycle n c current s \<noteq> Inl out_of_range"
      using "4.IH"(2)[OF False "4.prems"(1) cd] .
    show ?thesis
    proof (cases "search_cycle n c current s")
      case (Inl e)
      with sub False show ?thesis by auto
    next
      case (Inr s1)
      from search_cycle_frame[OF Inr] have sg: "same_graph s s1" by simp
      show ?thesis
      proof (cases "route_found s1")
        case True
        with False Inr show ?thesis by simp
      next
        case nf: False
        have "lookups_ok s1" using sg "4.prems"(1) by (rule same_graph_lookups_ok)
        moreover have "set rest \<subseteq> set (ways_from s1 current)"
          using rest same_graph_ways_from[OF sg] by simp
        ultimately have "search_cycle_loop n current previous rest s1 \<noteq> Inl out_of_range"
          using "4.IH"(3)[OF False Inr nf] by simp
        with False Inr nf show ?thesis by simp
      qed
    qed
  qed
qed

lemma route_any_in_range:
  assumes ok: "graph_ok s"
  shows "route_any fuel a b s \<noteq> Inl out_of_range"
proof (cases "ways_from s b = [] \<or> ways_from s a = []")
  case True
  then show ?thesis by (simp add: route_any_def)
next
  case False
  let ?s0 = "clean_for_search NORMAL s"
  have sg: "same_graph s ?s0" by (rule same_graph_clean)
  have "lookups_ok ?s0" using sg graph_ok_lookups_ok[OF ok] by (rule same_graph_lookups_ok)
  moreover have "a \<in> dom (visited_coordinates ?s0)"
    using graph_ok_start_entry[OF ok, of a] False sg by (simp add: same_graph_def)
  ultimately have "search_any fuel a b 0 ?s0 \<noteq> Inl out_of_range"
    by (rule search_any_in_range)
  with False show ?thesis by (auto simp: route_any_def Let_def split: sum.splits)
qed

lemma route_with_cycle_in_range:
  assumes ok: "graph_ok s"
  shows "route_with_cycle fuel a s \<noteq> Inl out_of_range"
proof (cases "ways_from s a = []")
  case True
  then show ?thesis by (simp add: route_with_cycle_def)
next
  case False
  let ?s0 = "clean_for_search CYCLE s"
  have sg: "same_graph s ?s0" by (rule same_graph_clean)
  have "lookups_ok ?s0" using sg graph_ok_lookups_ok[OF ok] by (rule same_graph_lookups_ok)
  moreover have "a \<in> dom (visited_coordinates ?s0)"
    using graph_ok_start_entry[OF ok, of a] False sg by (simp add: same_graph_def)
  ultimately have "search_cycle fuel a NO_COORD ?s0 \<noteq> Inl out_of_range"
    by (rule search_cycle_in_range)
  with False show ?thesis by (auto simp: route_with_cycle_def Let_def split: sum.splits)
qed



section \<open>Runs on the example graphs\<close>

lemma graph_ok_two_ways: "graph_ok two_ways"
  using reachable_two_ways by (rule reachable_graph_ok)

lemma graph_ok_triangle: "graph_ok triangle"
  using reachable_triangle by (rule reachable_graph_ok)

lemma route_any_two_ways_run:
  "\<exists>s'. route_any (Suc (Suc (Suc n))) c00 c43 two_ways
          = Inr ([(c00, ''W1'', 0), (c03, ''W2'', 3), (c43, NO_WAY, 7)], s')"
  by (simp add: route_any_def clean_for_search_def two_ways_def ways_from_def
      Let_def make_Crossroad_data_def int_add_def int_wrap_def)

lemma route_with_cycle_two_ways_run:
  "\<exists>s'. route_with_cycle (Suc (Suc (Suc (Suc n)))) c00 two_ways = Inr ([], s')"
  by (simp add: route_with_cycle_def clean_for_search_def two_ways_def ways_from_def
      Let_def make_Crossroad_data_def NO_COORD_def NO_VALUE_def c00_def c03_def c43_def)

lemma route_with_cycle_triangle_run:
  "\<exists>s'. route_with_cycle (Suc (Suc (Suc (Suc n)))) c00 triangle
      = Inr ([(c00, ''W3''), (c43, ''W2''), (c03, ''W1''), (c00, NO_WAY)], s')"
  by (simp add: route_with_cycle_def clean_for_search_def triangle_def ways_from_def
      Let_def make_Crossroad_data_def NO_COORD_def NO_VALUE_def c00_def c03_def c43_def)

lemma route_with_cycle_triangle_short:
  "route_with_cycle (Suc (Suc (Suc 0))) c00 triangle = Inl out_of_fuel"
  by (simp add: route_with_cycle_def clean_for_search_def triangle_def ways_from_def
      Let_def make_Crossroad_data_def NO_COORD_def NO_VALUE_def c00_def c03_def c43_def)

lemma route_any_triangle_run:
  "\<exists>r s'. route_any (Suc (Suc (Suc n))) c00 c43 triangle = Inr (r, s')"
  by (simp add: route_any_def clean_for_search_def triangle_def ways_from_def
      Let_def make_Crossroad_data_def)

lemma route_any_two_ways_short: "route_any (Suc 0) c00 c43 two_ways = Inl out_of_fuel"
  by (simp add: route_any_def clean_for_search_def two_ways_def ways_from_def
      Let_def make_Crossroad_data_def)

lemma route_with_cycle_two_ways_short: "route_with_cycle (Suc 0) c00 two_ways = Inl out_of_fuel"
  by (simp add: route_with_cycle_def clean_for_search_def two_ways_def ways_from_def
      Let_def make_Crossroad_data_def NO_COORD_def NO_VALUE_def c00_def c03_def c43_def)

lemma endpoints_triangle: "{c. is_endpoint triangle c} = {c00, c03, c43}"
proof -
  have "state_inv triangle" using reachable_triangle by (rule reachable_state_inv)
  then have "{c. is_endpoint triangle c} = dom (visited_coordinates triangle)"
    by (auto simp: state_inv_def entries_exact_def)
  also have "\<dots> = {c00, c03, c43}" by (auto simp: triangle_def)
  finally show ?thesis .
qed

lemma card_endpoints_triangle: "card {c. is_endpoint triangle c} = 3"
  by (simp add: endpoints_triangle)



text \<open>
  On the two long ways the distance of the goal is the sum of 2000000000 and 2000000000
  in \<open>int\<close> arithmetic, which is 4000000000 - 2^32 = -294967296: the difference of the last
  two distances is not the length of the way between them.
\<close>

lemma route_any_long_ways:
  "map_sum id fst (route_any (Suc (Suc (Suc n))) c00 c_north_east long_ways)
     = Inr [(c00, ''L1'', 0), (c_east, ''L2'', 2000000000), (c_north_east, NO_WAY, - 294967296)]"
  by (simp add: route_any_def clean_for_search_def long_ways_def ways_from_def
      Let_def make_Crossroad_data_def int_add_def int_wrap_def)

section \<open>The coordinates stored in the entries\<close>

lemma keeps_coordinates_refl [simp]: "keeps_coordinates s s"
  by (simp add: keeps_coordinates_def)

lemma keeps_coordinates_trans:
  "keeps_coordinates s s1 \<Longrightarrow> keeps_coordinates s1 s2 \<Longrightarrow> keeps_coordinates s s2"
  by (simp add: keeps_coordinates_def)

lemma keeps_coordinates_mark:
  "visited_coordinates s c = Some cr \<Longrightarrow> coordinates cr' = coordinates cr \<Longrightarrow>
   keeps_coordinates s (s\<lparr>visited_coordinates := (visited_coordinates s)(c \<mapsto> cr')\<rparr>)"
  by (simp add: keeps_coordinates_def)

lemma keeps_coordinates_clean: "keeps_coordinates s (clean_for_search t s)"
  by (auto simp: keeps_coordinates_def clean_for_search_def Let_def option.map_comp comp_def
      intro!: option.map_cong)

lemma search_any_coordinates_all:
  "(\<forall>n c g l s s'. search_any n c g l s = Inr s' \<longrightarrow> keeps_coordinates s s') \<and>
   (\<forall>n c g l ws s s'. search_any_loop n c g l ws s = Inr s' \<longrightarrow> keeps_coordinates s s')"
proof (rule search_any_run_induct, goal_cases)
  case (1 n c l s cr)
  then show ?case by (simp add: keeps_coordinates_def)
next
  case (2 n c g l s cr s1 s')
  have "keeps_coordinates s s1" unfolding "2"(3) using "2"(1) by (rule keeps_coordinates_mark) simp
  with "2"(5) show ?case by (rule keeps_coordinates_trans[rotated])
next
  case (3 n c g l s)
  show ?case by simp
next
  case (4 n c g l wid c' rest s cr s')
  then show ?case by simp
next
  case (5 n c g l wid c' rest s cr w s1 cr1)
  then show ?case by (simp add: keeps_coordinates_def)
next
  case (6 n c g l wid c' rest s cr w s1 s')
  from "6"(5,8) show ?case by (rule keeps_coordinates_trans)
qed

lemmas search_any_coordinates = search_any_coordinates_all[THEN conjunct1, rule_format]

lemma search_cycle_coordinates_all:
  "(\<forall>n c p s s'. search_cycle n c p s = Inr s' \<longrightarrow> keeps_coordinates s s') \<and>
   (\<forall>n c p ws s s'. search_cycle_loop n c p ws s = Inr s' \<longrightarrow> keeps_coordinates s s')"
proof (rule search_cycle_run_induct, goal_cases)
  case (1 n c p s cr)
  then show ?case by (simp add: keeps_coordinates_def)
next
  case (2 n c p s cr s1 s')
  have "keeps_coordinates s s1" unfolding "2"(3) using "2"(1) by (rule keeps_coordinates_mark) simp
  with "2"(5) show ?case by (rule keeps_coordinates_trans[rotated])
next
  case (3 n c p s)
  show ?case by simp
next
  case (4 n c p wid rest s s')
  then show ?case by simp
next
  case (5 n c p wid c' rest s s1)
  then show ?case by (simp add: keeps_coordinates_def)
next
  case (6 n c p wid c' rest s s1 s')
  from "6"(3,6) show ?case by (rule keeps_coordinates_trans)
qed

lemmas search_cycle_coordinates = search_cycle_coordinates_all[THEN conjunct1, rule_format]

lemma route_any_keeps_coordinates:
  assumes "route_any fuel a b s = Inr (r, s')"
  shows "keeps_coordinates s s'"
proof (cases "ways_from s b = [] \<or> ways_from s a = []")
  case True
  with assms show ?thesis by (simp add: route_any_def)
next
  case False
  with assms obtain s2 where
    run: "search_any fuel a b 0 (clean_for_search NORMAL s) = Inr s2" and
    s': "s' = s2\<lparr>chosen_route := rev (chosen_route s2)\<rparr>"
    by (auto simp: route_any_def Let_def split: sum.splits)
  from keeps_coordinates_clean search_any_coordinates[OF run]
  have "keeps_coordinates s s2" by (rule keeps_coordinates_trans)
  then show ?thesis by (simp add: s' keeps_coordinates_def)
qed

lemma route_with_cycle_keeps_coordinates:
  assumes "route_with_cycle fuel a s = Inr (r, s')"
  shows "keeps_coordinates s s'"
proof (cases "ways_from s a = []")
  case True
  with assms show ?thesis by (simp add: route_with_cycle_def)
next
  case False
  with assms obtain s2 where
    run: "search_cycle fuel a NO_COORD (clean_for_search CYCLE s) = Inr s2" and
    s': "s' = s2\<lparr>cyclic_route := rev (cyclic_route s2)\<rparr>"
    by (auto simp: route_with_cycle_def Let_def split: sum.splits)
  from keeps_coordinates_clean search_cycle_coordinates[OF run]
  have "keeps_coordinates s s2" by (rule keeps_coordinates_trans)
  then show ?thesis by (simp add: s' keeps_coordinates_def)
qed



section \<open>Routes are walks\<close>

lemma make_Way_W4: "make_Way ''W4'' [c43, c40] = Some way_W4"
  by (simp add: make_Way_def way_W4_def section_length_def floor_sqrt_values int_add_def
      int_sub_def int_wrap_def c43_def c40_def Let_def)

lemma coords_distinct_c40 [simp]:
  "c40 \<noteq> c00" "c00 \<noteq> c40" "c40 \<noteq> c03" "c03 \<noteq> c40" "c40 \<noteq> c43" "c43 \<noteq> c40"
  by (simp_all add: c00_def c03_def c43_def c40_def)

lemma way_W4_simps [simp]:
  "way_id way_W4 = ''W4''" "end1 way_W4 = c43" "end2 way_W4 = c40" "way_length way_W4 = 3"
  by (simp_all add: way_W4_def)

lemma add_way_apart: "add_way ''W4'' [c43, c40] one_way = Some (True, apart)"
  by (simp add: add_way_def get_way_def make_Way_W4 one_way_def apart_def Let_def)

lemma reachable_apart: "reachable apart"
  using reachable_add_way[OF reachable_one_way add_way_apart] .

lemma graph_ok_apart: "graph_ok apart"
  using reachable_apart by (rule reachable_graph_ok)

lemma way_joins_incidence:
  "way_index_ok s \<Longrightarrow> way_joins s wid c c' len \<Longrightarrow> (wid, c') \<in> set (ways_from s c)"
  by (auto simp: incidence_iff way_joins_def split: option.splits)

lemma way_leads_incidence:
  "way_index_ok s \<Longrightarrow> way_leads s wid c d c' d' \<Longrightarrow> (wid, c') \<in> set (ways_from s c)"
  using way_joins_incidence[of s wid c c'] by (auto simp: way_leads_def split: option.splits)

lemma route_links_walk:
  assumes ok: "way_index_ok s"
  shows "r \<noteq> [] \<Longrightarrow> route_links s r \<Longrightarrow>
         walk s (fst (hd r)) (route_steps r) \<and>
         last (fst (hd r) # map snd (route_steps r)) = fst (last r)"
proof (induction r rule: route_steps.induct)
  case (1 c wid d c' wid' d' rest)
  then show ?case using way_leads_incidence[OF ok] by auto
qed simp_all

lemma route_from_to_path_exists:
  "way_index_ok s \<Longrightarrow> route_from_to s a l b r \<Longrightarrow> path_exists s a b"
  using route_links_walk[of s r] unfolding route_from_to_def path_exists_def by blast

lemma walk_cong: "same_graph s s' \<Longrightarrow> walk s' c p = walk s c p"
  by (induction p arbitrary: c) (simp_all add: same_graph_ways_from)

lemma path_exists_cong: "same_graph s s' \<Longrightarrow> path_exists s' a b = path_exists s a b"
  by (simp add: path_exists_def walk_cong)

lemma route_any_unconnected:
  assumes ok: "graph_ok s" and pre: "ways_from s a \<noteq> []" "ways_from s b \<noteq> []"
    and np: "\<not> path_exists s a b" and fuel: "card (dom (visited_coordinates s)) \<le> fuel"
  shows "\<exists>s'. route_any fuel a b s = Inr ([], s')"
proof -
  let ?s0 = "clean_for_search NORMAL s"
  from route_any_returns[OF ok fuel, of a b] obtain r s' where
    run: "route_any fuel a b s = Inr (r, s')" by blast
  with pre obtain s2 where
    run2: "search_any fuel a b 0 ?s0 = Inr s2" and r: "r = rev (chosen_route s2)"
    by (auto simp: route_any_def Let_def split: sum.splits)
  have wok: "way_index_ok s" using ok by (simp add: graph_ok_def)
  have sg: "same_graph s ?s0" by (rule same_graph_clean)
  have "way_index_ok ?s0" using sg wok by (rule same_graph_way_index_ok)
  moreover have "\<not> route_found ?s0" by (simp add: clean_for_search_def Let_def)
  moreover have "\<not> is_visited ?s0 a"
    by (auto simp: is_visited_def clean_for_search_def Let_def)
  ultimately have out: "search_any_outcome ?s0 s2 a 0 b" using search_any_route[OF run2] by blast
  have empty: "chosen_route ?s0 = []" by (simp add: clean_for_search_def Let_def)
  have "\<not> route_found s2"
  proof
    assume "route_found s2"
    from search_any_outcome_foundD[OF out this] obtain r0 where
      "route_from_to ?s0 a 0 b r0" by auto
    with route_from_to_cong[OF sg, of a 0 b r0] have "route_from_to s a 0 b r0" by simp
    with route_from_to_path_exists[OF wok] np show False by blast
  qed
  from search_any_outcome_notD[OF out this] empty r have "r = []" by simp
  with run show ?thesis by blast
qed

lemma walk_apart_stays:
  "walk apart c p \<Longrightarrow> c = c00 \<or> c = c03 \<Longrightarrow> last (c # map snd p) = c00 \<or> last (c # map snd p) = c03"
proof (induction p arbitrary: c)
  case Nil
  then show ?case by simp
next
  case (Cons e p)
  from Cons.prems have e: "e \<in> set (ways_from apart c)" and w: "walk apart (snd e) p" by simp_all
  from e Cons.prems(2) have "snd e = c00 \<or> snd e = c03"
    by (auto simp: ways_from_def apart_def)
  from Cons.IH[OF w this] show ?case by simp
qed

lemma no_path_apart: "\<not> path_exists apart c00 c43"
proof
  assume "path_exists apart c00 c43"
  then obtain p where "walk apart c00 p" "last (c00 # map snd p) = c43"
    unfolding path_exists_def by blast
  with walk_apart_stays[of c00 p] show False by simp
qed

section \<open>Cycle search: what a search without result has visited\<close>

lemma fresh_refl [simp]: "fresh s s = {}"
  by (simp add: fresh_def)

lemma fresh_mono_right: "keeps_visited s1 s2 \<Longrightarrow> fresh s s1 \<subseteq> fresh s s2"
  using keeps_visited_is_visited by (auto simp: fresh_def)

lemma fresh_mono_left: "keeps_visited s s1 \<Longrightarrow> fresh s1 s2 \<subseteq> fresh s s2"
  using keeps_visited_is_visited by (auto simp: fresh_def)

lemma fresh_split:
  "keeps_visited s s1 \<Longrightarrow> keeps_visited s1 s2 \<Longrightarrow> fresh s s2 = fresh s s1 \<union> fresh s1 s2"
  using keeps_visited_is_visited by (auto simp: fresh_def)

lemma is_visited_mark:
  "visited cr' \<Longrightarrow>
   is_visited (s\<lparr>visited_coordinates := (visited_coordinates s)(c \<mapsto> cr')\<rparr>) e
     \<longleftrightarrow> e = c \<or> is_visited s e"
  by (auto simp: is_visited_def)

lemma fresh_mark:
  assumes "visited cr'" and "\<not> is_visited s c"
    and "keeps_visited (s\<lparr>visited_coordinates := (visited_coordinates s)(c \<mapsto> cr')\<rparr>) s'"
  shows "fresh s s' = insert c (fresh (s\<lparr>visited_coordinates := (visited_coordinates s)(c \<mapsto> cr')\<rparr>) s')"
proof -
  let ?s1 = "s\<lparr>visited_coordinates := (visited_coordinates s)(c \<mapsto> cr')\<rparr>"
  have "is_visited ?s1 c" using assms(1) by (simp add: is_visited_mark)
  with assms(3) have "is_visited s' c" by (rule keeps_visited_is_visited)
  with assms(1,2) show ?thesis by (auto simp: fresh_def is_visited_mark)
qed

text \<open>A cycle search that does not find a cycle entered an unvisited coordinate and left it
  visited; the coordinates its loop went to were unvisited and pairwise different.\<close>

lemma search_cycle_not_found_all:
  "(\<forall>n c p s s'. search_cycle n c p s = Inr s' \<longrightarrow>
      (\<not> route_found s' \<longrightarrow> \<not> is_visited s c \<and> is_visited s' c)) \<and>
   (\<forall>n c p ws s s'. search_cycle_loop n c p ws s = Inr s' \<longrightarrow>
      (\<not> route_found s' \<longrightarrow>
         (\<forall>e \<in> set ws. snd e \<noteq> p \<longrightarrow> \<not> is_visited s (snd e) \<and> is_visited s' (snd e)) \<and>
         distinct (filter (\<lambda>u. u \<noteq> p) (map snd ws))))"
proof (rule search_cycle_run_induct, goal_cases)
  case (1 n c p s cr)
  then show ?case by simp
next
  case (2 n c p s cr s1 s')
  have "is_visited s1 c" unfolding "2"(3) by (simp add: is_visited_mark)
  with search_cycle_loop_keeps[OF "2"(4)] have "is_visited s' c" by (rule keeps_visited_is_visited)
  moreover have "\<not> is_visited s c" using "2"(1,2) by (simp add: is_visited_def)
  ultimately show ?case by simp
next
  case (3 n c p s)
  then show ?case by simp
next
  case (4 n c p wid rest s s')
  then show ?case by simp
next
  case (5 n c p wid c' rest s s1)
  then show ?case by simp
next
  case (6 n c p wid c' rest s s1 s')
  show ?case
  proof (intro impI)
    assume nf: "\<not> route_found s'"
    from "6"(3,4) have c': "\<not> is_visited s c'" "is_visited s1 c'" by simp_all
    from "6"(6) nf have rest:
      "\<forall>e \<in> set rest. snd e \<noteq> p \<longrightarrow> \<not> is_visited s1 (snd e) \<and> is_visited s' (snd e)"
      and dist: "distinct (filter (\<lambda>u. u \<noteq> p) (map snd rest))" by simp_all
    have k1: "keeps_visited s s1" using "6"(2) by (rule search_cycle_keeps)
    have k2: "keeps_visited s1 s'" using "6"(5) by (rule search_cycle_loop_keeps)
    have a: "\<forall>e \<in> set ((wid, c') # rest). snd e \<noteq> p \<longrightarrow>
               \<not> is_visited s (snd e) \<and> is_visited s' (snd e)"
      using c' rest keeps_visited_is_visited[OF k1] keeps_visited_is_visited[OF k2] by auto
    have "c' \<notin> set (filter (\<lambda>u. u \<noteq> p) (map snd rest))"
      using rest c'(2) by auto
    with dist "6"(1) have b: "distinct (filter (\<lambda>u. u \<noteq> p) (map snd ((wid, c') # rest)))"
      by simp
    from a b show "(\<forall>e \<in> set ((wid, c') # rest). snd e \<noteq> p \<longrightarrow>
               \<not> is_visited s (snd e) \<and> is_visited s' (snd e)) \<and>
        distinct (filter (\<lambda>u. u \<noteq> p) (map snd ((wid, c') # rest)))" by simp
  qed
qed

lemmas search_cycle_not_found = search_cycle_not_found_all[THEN conjunct1, rule_format]
lemmas search_cycle_loop_not_found = search_cycle_not_found_all[THEN conjunct2, rule_format]

lemma distinct_targets_same_way:
  "distinct (filter (\<lambda>u. u \<noteq> p) (map snd ws)) \<Longrightarrow> (wid, c') \<in> set ws \<Longrightarrow> (wid', c') \<in> set ws \<Longrightarrow>
   c' \<noteq> p \<Longrightarrow> wid = wid'"
proof (induction ws)
  case Nil
  then show ?case by simp
next
  case (Cons e ws)
  show ?case
  proof (cases "snd e = c'")
    case True
    with Cons.prems(1,4) have "c' \<notin> snd ` set ws" by auto
    then have "(wid, c') \<notin> set ws" "(wid', c') \<notin> set ws" by force+
    with Cons.prems(2,3) have "e = (wid, c')" "e = (wid', c')" by simp_all
    then show ?thesis by simp
  next
    case False
    with Cons.prems have "(wid, c') \<in> set ws" "(wid', c') \<in> set ws"
      "distinct (filter (\<lambda>u. u \<noteq> p) (map snd ws))"
      by (auto split: if_splits)
    with Cons.IH Cons.prems(4) show ?thesis by blast
  qed
qed

text \<open>What a cycle search that found nothing has newly visited is closed under the ways,
  but for the way back from the coordinate it started at to the one it came from.\<close>

lemma search_cycle_closed_all:
  "(\<forall>n c p s s'. search_cycle n c p s = Inr s' \<longrightarrow>
      (\<not> route_found s' \<longrightarrow>
         (\<forall>e \<in> fresh s s'. \<forall>i \<in> set (ways_from s e). snd i \<in> fresh s s' \<or> (e = c \<and> snd i = p)))) \<and>
   (\<forall>n c p ws s s'. search_cycle_loop n c p ws s = Inr s' \<longrightarrow>
      (\<not> route_found s' \<longrightarrow>
         (\<forall>e \<in> fresh s s'. \<forall>i \<in> set (ways_from s e).
              snd i \<in> fresh s s' \<or> (snd i = c \<and> e \<in> snd ` set ws)) \<and>
         (\<forall>i \<in> set ws. snd i = p \<or> snd i \<in> fresh s s')))"
proof (rule search_cycle_run_induct, goal_cases)
  case (1 n c p s cr)
  then show ?case by simp
next
  case (2 n c p s cr s1 s')
  show ?case
  proof (intro impI ballI)
    fix e i
    assume nf: "\<not> route_found s'" and e: "e \<in> fresh s s'" and i: "i \<in> set (ways_from s e)"
    have nv: "\<not> is_visited s c" using "2"(1,2) by (simp add: is_visited_def)
    have fr: "fresh s s' = insert c (fresh s1 s')"
      unfolding "2"(3) using nv search_cycle_loop_keeps[OF "2"(4)[unfolded "2"(3)]]
      by (intro fresh_mark) simp_all
    have wf: "ways_from s1 x = ways_from s x" for x by (simp add: "2"(3) ways_from_def)
    from "2"(5) nf have
      A: "\<forall>e \<in> fresh s1 s'. \<forall>i \<in> set (ways_from s1 e).
              snd i \<in> fresh s1 s' \<or> (snd i = c \<and> e \<in> snd ` set (ways_from s1 c))"
      and B: "\<forall>i \<in> set (ways_from s1 c). snd i = p \<or> snd i \<in> fresh s1 s'" by simp_all
    show "snd i \<in> fresh s s' \<or> (e = c \<and> snd i = p)"
    proof (cases "e = c")
      case True
      with B i wf fr show ?thesis by auto
    next
      case False
      with e fr have "e \<in> fresh s1 s'" by simp
      with A i wf fr show ?thesis by auto
    qed
  qed
next
  case (3 n c p s)
  then show ?case by simp
next
  case (4 n c p wid rest s s')
  then show ?case by auto
next
  case (5 n c p wid c' rest s s1)
  then show ?case by simp
next
  case (6 n c p wid c' rest s s1 s')
  show ?case
  proof (intro impI)
    assume nf: "\<not> route_found s'"
    have k1: "keeps_visited s s1" using "6"(2) by (rule search_cycle_keeps)
    have k2: "keeps_visited s1 s'" using "6"(5) by (rule search_cycle_loop_keeps)
    have fr: "fresh s s' = fresh s s1 \<union> fresh s1 s'" using k1 k2 by (rule fresh_split)
    have sg: "same_graph s s1" using search_cycle_frame[OF "6"(2)] by simp
    have wf: "ways_from s1 x = ways_from s x" for x using sg by (rule same_graph_ways_from)
    from "6"(3,4) have
      A: "\<forall>e \<in> fresh s s1. \<forall>i \<in> set (ways_from s e). snd i \<in> fresh s s1 \<or> (e = c' \<and> snd i = c)"
      by simp
    from "6"(6) nf have
      B: "\<forall>e \<in> fresh s1 s'. \<forall>i \<in> set (ways_from s1 e).
              snd i \<in> fresh s1 s' \<or> (snd i = c \<and> e \<in> snd ` set rest)"
      and C: "\<forall>i \<in> set rest. snd i = p \<or> snd i \<in> fresh s1 s'" by simp_all
    from search_cycle_not_found[OF "6"(2,4)] have "c' \<in> fresh s s1" by (simp add: fresh_def)
    with C fr have 2: "\<forall>i \<in> set ((wid, c') # rest). snd i = p \<or> snd i \<in> fresh s s'" by auto
    have 1: "\<forall>e \<in> fresh s s'. \<forall>i \<in> set (ways_from s e).
              snd i \<in> fresh s s' \<or> (snd i = c \<and> e \<in> snd ` set ((wid, c') # rest))"
    proof (intro ballI)
      fix e i
      assume e: "e \<in> fresh s s'" and i: "i \<in> set (ways_from s e)"
      show "snd i \<in> fresh s s' \<or> (snd i = c \<and> e \<in> snd ` set ((wid, c') # rest))"
      proof (cases "e \<in> fresh s s1")
        case True
        with A i fr show ?thesis by auto
      next
        case False
        with e fr have "e \<in> fresh s1 s'" by simp
        with B i wf fr show ?thesis by auto
      qed
    qed
    from 1 2 show "(\<forall>e \<in> fresh s s'. \<forall>i \<in> set (ways_from s e).
              snd i \<in> fresh s s' \<or> (snd i = c \<and> e \<in> snd ` set ((wid, c') # rest))) \<and>
         (\<forall>i \<in> set ((wid, c') # rest). snd i = p \<or> snd i \<in> fresh s s')" by simp
  qed
qed

lemmas search_cycle_closed = search_cycle_closed_all[THEN conjunct1, rule_format]

section \<open>Cycle search: no reachable cycle is missed\<close>

lemma way_target_unique:
  assumes "way_index_ok s" and "(wid, u) \<in> set (ways_from s e)" and "(wid, u') \<in> set (ways_from s e)"
  shows "u = u'"
proof -
  from assms(2) obtain w where w: "ways_by_id s wid = Some w"
      "(end1 w = e \<and> end2 w = u) \<or> (end2 w = e \<and> end1 w = u)"
    by (auto simp: incidence_iff[OF assms(1)])
  from assms(3) obtain w' where w': "ways_by_id s wid = Some w'"
      "(end1 w' = e \<and> end2 w' = u') \<or> (end2 w' = e \<and> end1 w' = u')"
    by (auto simp: incidence_iff[OF assms(1)])
  from w(1) w'(1) have "w' = w" by simp
  with w(2) w'(2) show ?thesis by auto
qed

lemma no_retrace_tl: "no_retrace (e # w) \<Longrightarrow> no_retrace w"
  by (cases w) simp_all

text \<open>
  After a cycle search that found nothing, every walk from its coordinate that does not
  start towards the coordinate it came from and never retraces a way goes through newly
  visited coordinates only, and never through one twice.
\<close>

lemma search_cycle_tree_all:
  "(\<forall>n c p s s'. search_cycle n c p s = Inr s' \<longrightarrow>
      (way_index_ok s \<and> \<not> route_found s' \<longrightarrow>
         (\<forall>w. walk s c w \<and> no_retrace w \<and> (w \<noteq> [] \<longrightarrow> snd (hd w) \<noteq> p) \<longrightarrow>
              distinct (map snd w) \<and> set (map snd w) \<subseteq> fresh s s' - {c}))) \<and>
   (\<forall>n c p ws s s'. search_cycle_loop n c p ws s = Inr s' \<longrightarrow>
      (way_index_ok s \<and> \<not> route_found s' \<and> is_visited s c \<and> set ws \<subseteq> set (ways_from s c) \<and>
       (\<forall>i \<in> set ws. snd i \<noteq> p \<longrightarrow> (\<forall>wid'. (wid', snd i) \<in> set (ways_from s c) \<longrightarrow> wid' = fst i))
       \<longrightarrow>
         (\<forall>w. walk s c w \<and> no_retrace w \<and> w \<noteq> [] \<and> hd w \<in> set ws \<and> snd (hd w) \<noteq> p \<longrightarrow>
              distinct (map snd w) \<and> set (map snd w) \<subseteq> fresh s s')))"
proof (rule search_cycle_run_induct, goal_cases)
  case (1 n c p s cr)
  then show ?case by simp
next
  case (2 n c p s cr s1 s')
  show ?case
  proof (intro impI allI, elim conjE)
    fix w
    assume ok: "way_index_ok s" and nf: "\<not> route_found s'"
      and w: "walk s c w" "no_retrace w" "w \<noteq> [] \<longrightarrow> snd (hd w) \<noteq> p"
    have nv: "\<not> is_visited s c" using "2"(1,2) by (simp add: is_visited_def)
    have k: "keeps_visited s1 s'" using "2"(4) by (rule search_cycle_loop_keeps)
    have fr: "fresh s s' = insert c (fresh s1 s')"
      unfolding "2"(3) using nv k[unfolded "2"(3)] by (intro fresh_mark) simp_all
    have v1: "is_visited s1 c" unfolding "2"(3) by (simp add: is_visited_mark)
    then have "c \<notin> fresh s1 s'" by (simp add: fresh_def)
    with fr have fr': "fresh s1 s' = fresh s s' - {c}" by auto
    have sg: "same_graph s s1" unfolding "2"(3) using "2"(1) by (rule same_graph_mark)
    have wf: "ways_from s1 x = ways_from s x" for x using sg by (rule same_graph_ways_from)
    show "distinct (map snd w) \<and> set (map snd w) \<subseteq> fresh s s' - {c}"
    proof (cases w)
      case Nil
      then show ?thesis by simp
    next
      case (Cons e w')
      have ok1: "way_index_ok s1" using sg ok by (rule same_graph_way_index_ok)
      from search_cycle_loop_not_found[OF "2"(4) nf]
      have dist: "distinct (filter (\<lambda>u. u \<noteq> p) (map snd (ways_from s1 c)))" by simp
      have np: "\<forall>i \<in> set (ways_from s1 c). snd i \<noteq> p \<longrightarrow>
                 (\<forall>wid'. (wid', snd i) \<in> set (ways_from s1 c) \<longrightarrow> wid' = fst i)"
      proof (intro ballI impI allI)
        fix i wid'
        assume "i \<in> set (ways_from s1 c)" "snd i \<noteq> p" "(wid', snd i) \<in> set (ways_from s1 c)"
        with distinct_targets_same_way[OF dist, of wid' "snd i" "fst i"] show "wid' = fst i"
          by simp
      qed
      have w1: "walk s1 c w" using w(1) sg by (simp add: walk_cong)
      from Cons w(1) have hd: "hd w \<in> set (ways_from s1 c)" by (simp add: wf)
      from Cons w(3) have ne: "w \<noteq> []" "snd (hd w) \<noteq> p" by simp_all
      have sub: "set (ways_from s1 c) \<subseteq> set (ways_from s1 c)" by simp
      from "2"(5) ok1 nf v1 sub np w1 w(2) ne hd
      have "distinct (map snd w) \<and> set (map snd w) \<subseteq> fresh s1 s'" by blast
      with fr' show ?thesis by simp
    qed
  qed
next
  case (3 n c p s)
  then show ?case by simp
next
  case (4 n c p wid rest s s')
  show ?case
  proof (intro impI allI, elim conjE)
    fix w
    assume ok: "way_index_ok s" and nf: "\<not> route_found s'" and v: "is_visited s c"
      and sub: "set ((wid, p) # rest) \<subseteq> set (ways_from s c)"
      and np: "\<forall>i \<in> set ((wid, p) # rest). snd i \<noteq> p \<longrightarrow>
                 (\<forall>wid'. (wid', snd i) \<in> set (ways_from s c) \<longrightarrow> wid' = fst i)"
      and w: "walk s c w" "no_retrace w" "w \<noteq> []" "hd w \<in> set ((wid, p) # rest)" "snd (hd w) \<noteq> p"
    from w(4,5) have "hd w \<in> set rest" by auto
    moreover from sub have "set rest \<subseteq> set (ways_from s c)" by simp
    moreover from np have "\<forall>i \<in> set rest. snd i \<noteq> p \<longrightarrow>
                 (\<forall>wid'. (wid', snd i) \<in> set (ways_from s c) \<longrightarrow> wid' = fst i)" by simp
    ultimately show "distinct (map snd w) \<and> set (map snd w) \<subseteq> fresh s s'"
      using "4"(2) ok nf v w by blast
  qed
next
  case (5 n c p wid c' rest s s1)
  then show ?case by simp
next
  case (6 n c p wid c' rest s s1 s')
  show ?case
  proof (intro impI allI, elim conjE)
    fix w
    assume ok: "way_index_ok s" and nf: "\<not> route_found s'" and v: "is_visited s c"
      and sub: "set ((wid, c') # rest) \<subseteq> set (ways_from s c)"
      and np: "\<forall>i \<in> set ((wid, c') # rest). snd i \<noteq> p \<longrightarrow>
                 (\<forall>wid'. (wid', snd i) \<in> set (ways_from s c) \<longrightarrow> wid' = fst i)"
      and w: "walk s c w" "no_retrace w" "w \<noteq> []" "hd w \<in> set ((wid, c') # rest)" "snd (hd w) \<noteq> p"
    have k1: "keeps_visited s s1" using "6"(2) by (rule search_cycle_keeps)
    have k2: "keeps_visited s1 s'" using "6"(5) by (rule search_cycle_loop_keeps)
    have sg: "same_graph s s1" using search_cycle_frame[OF "6"(2)] by simp
    have wf: "ways_from s1 x = ways_from s x" for x using sg by (rule same_graph_ways_from)
    from search_cycle_not_found[OF "6"(2,4)] have c': "\<not> is_visited s c'" "is_visited s1 c'"
      by simp_all
    show "distinct (map snd w) \<and> set (map snd w) \<subseteq> fresh s s'"
    proof (cases "hd w = (wid, c')")
      case True
      with w(3) obtain w' where ww: "w = (wid, c') # w'" by (cases w) auto
      with w(1,2) have w': "walk s c' w'" "no_retrace w'" by (simp_all add: no_retrace_tl)
      have first: "w' \<noteq> [] \<longrightarrow> snd (hd w') \<noteq> c"
      proof (intro impI notI)
        assume ne: "w' \<noteq> []" and goes_back: "snd (hd w') = c"
        then obtain wid2 w'' where w'': "w' = (wid2, c) # w''" by (cases w') auto
        with w'(1) have "(wid2, c) \<in> set (ways_from s c')" by simp
        with ok have "(wid2, c') \<in> set (ways_from s c)" by (rule incidence_sym)
        with np "6"(1) have "wid2 = wid" by auto
        with ww w'' w(2) show False by simp
      qed
      from "6"(3) ok "6"(4) w' first
      have sub': "distinct (map snd w')" "set (map snd w') \<subseteq> fresh s s1 - {c'}" by blast+
      have "c' \<in> fresh s s1" using c' by (simp add: fresh_def)
      with sub' fresh_mono_right[OF k2, of s] ww show ?thesis by auto
    next
      case False
      with w(4) have hd: "hd w \<in> set rest" by simp
      have ok1: "way_index_ok s1" using sg ok by (rule same_graph_way_index_ok)
      have v1: "is_visited s1 c" using k1 v by (rule keeps_visited_is_visited)
      have sub1: "set rest \<subseteq> set (ways_from s1 c)" using sub by (simp add: wf)
      have np1: "\<forall>i \<in> set rest. snd i \<noteq> p \<longrightarrow>
                 (\<forall>wid'. (wid', snd i) \<in> set (ways_from s1 c) \<longrightarrow> wid' = fst i)"
        using np by (simp add: wf)
      have w1: "walk s1 c w" using w(1) sg by (simp add: walk_cong)
      from "6"(6) ok1 nf v1 sub1 np1 w1 w(2,3,5) hd
      have "distinct (map snd w) \<and> set (map snd w) \<subseteq> fresh s1 s'" by blast
      with fresh_mono_left[OF k1, of s'] show ?thesis by auto
    qed
  qed
qed

lemmas search_cycle_tree = search_cycle_tree_all[THEN conjunct1, rule_format]

section \<open>Cycle search: a reported cycle is there\<close>

lemma lasso_cong: "same_graph s s' \<Longrightarrow> lasso s' c p V = lasso s c p V"
  using walk_cong[of s s'] by (simp add: lasso_def)

lemma walk_last_step:
  "walk s c w \<Longrightarrow> w \<noteq> [] \<Longrightarrow> last w \<in> set (ways_from s (last (c # map snd (butlast w))))"
proof (induction w arbitrary: c)
  case Nil
  then show ?case by simp
next
  case (Cons e w)
  show ?case
  proof (cases "w = []")
    case True
    with Cons.prems show ?thesis by simp
  next
    case False
    with Cons.prems Cons.IH[of "snd e"] show ?thesis by simp
  qed
qed

lemma count_list_map_filter_le:
  "(\<forall>x \<in> set xs. P x \<and> f x = y \<longrightarrow> x = x0) \<Longrightarrow>
   count_list (map f (filter P xs)) y \<le> count_list xs x0"
proof (induction xs)
  case Nil
  then show ?case by simp
next
  case (Cons a xs)
  then have IH: "count_list (map f (filter P xs)) y \<le> count_list xs x0" by simp
  show ?case
  proof (cases "P a \<and> f a = y")
    case True
    with Cons.prems have "a = x0" by simp
    with True IH show ?thesis by simp
  next
    case False
    then have "count_list (map f (filter P (a # xs))) y = count_list (map f (filter P xs)) y"
      by auto
    with IH show ?thesis by simp
  qed
qed

lemma ways_from_count_le_1:
  assumes ok: "way_index_ok s" and inc: "(wid, c') \<in> set (ways_from s c)" and ne: "c' \<noteq> c"
  shows "count_list (ways_from s c) (wid, c') \<le> 1"
proof -
  from inc have "\<exists>w0. ways_by_id s wid = Some w0 \<and>
      ((end1 w0 = c \<and> end2 w0 = c') \<or> (end2 w0 = c \<and> end1 w0 = c'))"
    by (simp add: incidence_iff[OF ok])
  then obtain w0 where w0: "ways_by_id s wid = Some w0"
      "(end1 w0 = c \<and> end2 w0 = c') \<or> (end2 w0 = c \<and> end1 w0 = c')"
    by blast
  define f :: "Coord \<times> Way \<Rightarrow> WayID \<times> Coord"
    where "f = (\<lambda>(k, w). if c = end1 w then (way_id w, end2 w) else (way_id w, end1 w))"
  define P :: "Coord \<times> Way \<Rightarrow> bool" where "P = (\<lambda>(k, w). k = c)"
  have "\<forall>x \<in> set (ways_by_coord s). P x \<and> f x = (wid, c') \<longrightarrow> x = (c, w0)"
  proof (intro ballI impI)
    fix x
    assume x: "x \<in> set (ways_by_coord s)" and px: "P x \<and> f x = (wid, c')"
    obtain k w where kw: "x = (k, w)" by (cases x)
    with px have k: "k = c" by (simp add: P_def)
    from px kw have id: "way_id w = wid" by (simp add: f_def split: if_splits)
    from x kw k have "(c, w) \<in> set (ways_by_coord s)" by simp
    then have "ways_by_id s (way_id w) = Some w" by (simp add: way_index_member[OF ok])
    with id w0(1) have "w = w0" by simp
    with kw k show "x = (c, w0)" by simp
  qed
  then have "count_list (map f (filter P (ways_by_coord s))) (wid, c')
               \<le> count_list (ways_by_coord s) (c, w0)"
    by (rule count_list_map_filter_le)
  moreover have "way_id w0 = wid" using ok w0(1) by (rule way_index_id)
  then have "count_list (ways_by_coord s) (c, w0) =
      (if c = end1 w0 then 1 else 0) + (if c = end2 w0 then 1 else 0)"
    using way_index_count[OF ok, of c w0] w0(1) by simp
  with w0(2) ne have "count_list (ways_by_coord s) (c, w0) \<le> 1" by auto
  moreover have "ways_from s c = map f (filter P (ways_by_coord s))"
    by (simp add: ways_from_def f_def P_def)
  ultimately show ?thesis by simp
qed

lemma ways_from_no_repeat:
  assumes ok: "way_index_ok s" and split: "D @ (wid, c') # rest = ways_from s c"
    and ne: "c' \<noteq> c" and dup: "(wid, c') \<in> set D"
  shows False
proof -
  have inc: "(wid, c') \<in> set (ways_from s c)" unfolding split[symmetric] by simp
  from dup have "count_list D (wid, c') \<noteq> 0" by (simp add: count_list_0_iff)
  then have "2 \<le> count_list (D @ (wid, c') # rest) (wid, c')" by simp
  with ways_from_count_le_1[OF ok inc ne] split show False by simp
qed

lemma finished_closed_more:
  "finished_closed s c V D \<Longrightarrow> finished_closed s c V (D @ D')"
  unfolding finished_closed_def by auto

lemma finished_closed_step:
  assumes fc: "finished_closed s c V D"
    and closed: "\<forall>e \<in> fresh s s1. \<forall>i \<in> set (ways_from s e). snd i \<in> fresh s s1 \<or> (e = c' \<and> snd i = c)"
    and keeps: "keeps_visited s s1" and sg: "same_graph s s1"
    and V: "V \<subseteq> visited_set s" and vc: "is_visited s c"
  shows "finished_closed s1 c V (D @ [(wid, c')])"
  unfolding finished_closed_def
proof (intro allI impI ballI, elim conjE)
  fix e i
  assume e: "is_visited s1 e" "e \<notin> V" "e \<noteq> c" and i: "i \<in> set (ways_from s1 e)"
  from i have i': "i \<in> set (ways_from s e)" by (simp add: same_graph_ways_from[OF sg])
  show "(is_visited s1 (snd i) \<and> snd i \<notin> V \<and> snd i \<noteq> c) \<or>
        (snd i = c \<and> e \<in> snd ` set (D @ [(wid, c')]))"
  proof (cases "is_visited s e")
    case True
    from fc True e(2,3) i' have "(is_visited s (snd i) \<and> snd i \<notin> V \<and> snd i \<noteq> c) \<or>
        (snd i = c \<and> e \<in> snd ` set D)"
      unfolding finished_closed_def by blast
    then show ?thesis
    proof
      assume a: "is_visited s (snd i) \<and> snd i \<notin> V \<and> snd i \<noteq> c"
      then have "is_visited s1 (snd i)" using keeps_visited_is_visited[OF keeps] by blast
      with a show ?thesis by blast
    next
      assume "snd i = c \<and> e \<in> snd ` set D"
      then show ?thesis by simp
    qed
  next
    case False
    with e(1) have ef: "e \<in> fresh s s1" by (simp add: fresh_def)
    from bspec[OF bspec[OF closed ef] i']
    have "snd i \<in> fresh s s1 \<or> (e = c' \<and> snd i = c)" .
    then show ?thesis
    proof
      assume f: "snd i \<in> fresh s s1"
      then have f1: "is_visited s1 (snd i)" and f2: "\<not> is_visited s (snd i)"
        by (simp_all add: fresh_def)
      from f2 V have "snd i \<notin> V" unfolding visited_set_def by blast
      moreover from f2 vc have "snd i \<noteq> c" by blast
      ultimately show ?thesis using f1 by blast
    next
      assume "e = c' \<and> snd i = c"
      then show ?thesis by simp
    qed
  qed
qed

lemma finished_closedD:
  "finished_closed s c V D \<Longrightarrow> is_visited s e \<Longrightarrow> e \<notin> V \<Longrightarrow> e \<noteq> c \<Longrightarrow>
   i \<in> set (ways_from s e) \<Longrightarrow>
   (is_visited s (snd i) \<and> snd i \<notin> V \<and> snd i \<noteq> c) \<or> (snd i = c \<and> e \<in> snd ` set D)"
  unfolding finished_closed_def by blast

lemma lassoI:
  "walk s c w \<Longrightarrow> no_retrace w \<Longrightarrow> w \<noteq> [] \<Longrightarrow> snd (hd w) \<noteq> p \<Longrightarrow> c \<notin> V \<Longrightarrow>
   set (map snd (butlast w)) \<inter> V = {} \<Longrightarrow>
   snd (last w) \<in> V \<or> snd (last w) \<in> set (c # map snd (butlast w)) \<Longrightarrow> lasso s c p V"
  unfolding lasso_def by (intro exI[of _ w]) simp

lemma lasso_extend:
  assumes ok: "way_index_ok s" and split: "D @ (wid, c') # rest = ways_from s c"
    and c'p: "c' \<noteq> p" and vc: "is_visited s c" and cV: "c \<notin> V" and V: "V \<subseteq> visited_set s"
    and fc: "finished_closed s c V D" and sub: "lasso s c' c (visited_set s)"
  shows "lasso s c p V"
proof -
  have inc: "(wid, c') \<in> set (ways_from s c)" unfolding split[symmetric] by simp
  with ok have ret: "(wid, c) \<in> set (ways_from s c')" by (rule incidence_sym)
  have Dsub: "set D \<subseteq> set (ways_from s c)" unfolding split[symmetric] by auto
  from sub obtain w' where w': "walk s c' w'" "no_retrace w'" "w' \<noteq> [] \<longrightarrow> snd (hd w') \<noteq> c"
    and fin: "if w' = [] then c' \<in> visited_set s
           else c' \<notin> visited_set s \<and> set (map snd (butlast w')) \<inter> visited_set s = {} \<and>
                (snd (last w') \<in> visited_set s \<or> snd (last w') \<in> set (c' # map snd (butlast w')))"
    unfolding lasso_def by blast
  show ?thesis
  proof (cases "w' = []")
    case True
    with fin have vc': "is_visited s c'" by (simp add: visited_set_def)
    show ?thesis
    proof (cases "c' \<in> V \<or> c' = c")
      case True
      show ?thesis
      proof (rule lassoI[of s c "[(wid, c')]"])
        show "walk s c [(wid, c')]" using inc by simp
        show "snd (last [(wid, c')]) \<in> V \<or>
              snd (last [(wid, c')]) \<in> set (c # map snd (butlast [(wid, c')]))"
          using True by simp
      qed (simp_all add: c'p cV)
    next
      case False
      then have out: "c' \<notin> V" "c' \<noteq> c" by simp_all
      from finished_closedD[OF fc vc' out ret] have "c' \<in> snd ` set D" by simp
      then obtain wid1 where d: "(wid1, c') \<in> set D" by auto
      have ne: "wid1 \<noteq> wid"
      proof
        assume "wid1 = wid"
        with d ways_from_no_repeat[OF ok split out(2)] show False by blast
      qed
      show ?thesis
      proof (rule lassoI[of s c "[(wid1, c'), (wid, c)]"])
        show "walk s c [(wid1, c'), (wid, c)]" using d Dsub ret by auto
        show "no_retrace [(wid1, c'), (wid, c)]" using ne by simp
        show "set (map snd (butlast [(wid1, c'), (wid, c)])) \<inter> V = {}" using out(1) by simp
      qed (simp_all add: c'p cV)
    qed
  next
    case False
    with fin have nv: "c' \<notin> visited_set s"
      and mids: "set (map snd (butlast w')) \<inter> visited_set s = {}"
      and ends: "snd (last w') \<in> visited_set s \<or> snd (last w') \<in> set (c' # map snd (butlast w'))"
      by simp_all
    let ?w = "(wid, c') # w'"
    have bl: "butlast ?w = (wid, c') # butlast w'" using False by simp
    have la: "last ?w = last w'" using False by simp
    show ?thesis
    proof (rule lassoI[of s c ?w])
      show "walk s c ?w" using inc w'(1) by simp
      show "no_retrace ?w"
      proof -
        from False obtain wid2 c2 w'' where w'': "w' = (wid2, c2) # w''" by (cases w') auto
        with w'(3) have c2: "c2 \<noteq> c" by simp
        have "wid \<noteq> wid2"
        proof
          assume "wid = wid2"
          with w'' w'(1) have "(wid, c2) \<in> set (ways_from s c')" by simp
          with way_target_unique[OF ok this ret] c2 show False by simp
        qed
        with w'' w'(2) show ?thesis by simp
      qed
      show "?w \<noteq> []" by simp
      show "snd (hd ?w) \<noteq> p" using c'p by simp
      show "c \<notin> V" by (rule cV)
      show "set (map snd (butlast ?w)) \<inter> V = {}"
        unfolding bl using nv mids V by auto
      show "snd (last ?w) \<in> V \<or> snd (last ?w) \<in> set (c # map snd (butlast ?w))"
        unfolding bl la
      proof (cases "snd (last w') \<in> set (c' # map snd (butlast w'))")
        case True
        then show "snd (last w') \<in> V \<or>
                   snd (last w') \<in> set (c # map snd ((wid, c') # butlast w'))" by simp
      next
        case nrev: False
        with ends have ve: "is_visited s (snd (last w'))" by (simp add: visited_set_def)
        show "snd (last w') \<in> V \<or>
              snd (last w') \<in> set (c # map snd ((wid, c') # butlast w'))"
        proof (cases "snd (last w') \<in> V \<or> snd (last w') = c")
          case True
          then show ?thesis by auto
        next
          case out: False
          then have out': "snd (last w') \<notin> V" "snd (last w') \<noteq> c" by simp_all
          let ?u = "last (c' # map snd (butlast w'))"
          from walk_last_step[OF w'(1) False] have "last w' \<in> set (ways_from s ?u)" .
          then have "(fst (last w'), snd (last w')) \<in> set (ways_from s ?u)" by simp
          with ok have "(fst (last w'), ?u) \<in> set (ways_from s (snd (last w')))"
            by (rule incidence_sym)
          from finished_closedD[OF fc ve out' this]
          have "is_visited s ?u \<or> ?u = c" by auto
          moreover have "?u \<in> set (c' # map snd (butlast w'))" by (rule last_in_set) simp
          with nv mids have "\<not> is_visited s ?u" by (auto simp: visited_set_def)
          ultimately have "is_visited s ?u" using vc by auto
          with \<open>\<not> is_visited s ?u\<close> show ?thesis by simp
        qed
      qed
    qed
  qed
qed

lemma visited_set_mark:
  "visited cr' \<Longrightarrow>
   visited_set (s\<lparr>visited_coordinates := (visited_coordinates s)(c \<mapsto> cr')\<rparr>)
     = insert c (visited_set s)"
  by (auto simp: visited_set_def is_visited_mark)

text \<open>A cycle search that finds a cycle has a lasso to show for it.\<close>

lemma search_cycle_lasso_all:
  "(\<forall>n c p s s'. search_cycle n c p s = Inr s' \<longrightarrow>
      (way_index_ok s \<and> \<not> route_found s \<and> route_found s' \<longrightarrow> lasso s c p (visited_set s))) \<and>
   (\<forall>n c p ws s s'. search_cycle_loop n c p ws s = Inr s' \<longrightarrow>
      (\<forall>V D. way_index_ok s \<and> \<not> route_found s \<and> route_found s' \<and>
              D @ ws = ways_from s c \<and> is_visited s c \<and> c \<notin> V \<and> V \<subseteq> visited_set s \<and>
              finished_closed s c V D \<longrightarrow> lasso s c p V))"
proof (rule search_cycle_run_induct, goal_cases)
  case (1 n c p s cr)
  have "is_visited s c" using "1" by (simp add: is_visited_def)
  then have "lasso s c p (visited_set s)"
    unfolding lasso_def by (intro exI[of _ "[]"]) (simp add: visited_set_def)
  then show ?case by simp
next
  case (2 n c p s cr s1 s')
  show ?case
  proof (intro impI, elim conjE)
    assume ok: "way_index_ok s" and nf: "\<not> route_found s" and f: "route_found s'"
    have nv: "\<not> is_visited s c" using "2"(1,2) by (simp add: is_visited_def)
    have sg: "same_graph s s1" unfolding "2"(3) using "2"(1) by (rule same_graph_mark)
    have vs: "visited_set s1 = insert c (visited_set s)"
      unfolding "2"(3) by (rule visited_set_mark) simp
    have "way_index_ok s1" using sg ok by (rule same_graph_way_index_ok)
    moreover have "\<not> route_found s1" using nf by (simp add: "2"(3))
    moreover have "[] @ ways_from s1 c = ways_from s1 c" by simp
    moreover have "is_visited s1 c" using vs by (simp add: visited_set_def set_eq_iff)
    moreover have "c \<notin> visited_set s" using nv by (simp add: visited_set_def)
    moreover have "visited_set s \<subseteq> visited_set s1" using vs by auto
    moreover have "finished_closed s1 c (visited_set s) []"
      unfolding finished_closed_def using vs by (auto simp: visited_set_def set_eq_iff)
    ultimately have "lasso s1 c p (visited_set s)" using "2"(5) f by blast
    then show "lasso s c p (visited_set s)" by (simp add: lasso_cong[OF sg])
  qed
next
  case (3 n c p s)
  show ?case by blast
next
  case (4 n c p wid rest s s')
  show ?case
  proof (intro allI impI, elim conjE)
    fix V D
    assume ok: "way_index_ok s" and nf: "\<not> route_found s" and f: "route_found s'"
      and split: "D @ (wid, p) # rest = ways_from s c" and vc: "is_visited s c"
      and cV: "c \<notin> V" and V: "V \<subseteq> visited_set s" and fc: "finished_closed s c V D"
    from split have "(D @ [(wid, p)]) @ rest = ways_from s c" by simp
    moreover have "finished_closed s c V (D @ [(wid, p)])" using fc by (rule finished_closed_more)
    ultimately show "lasso s c p V" using "4"(2) ok nf f vc cV V by blast
  qed
next
  case (5 n c p wid c' rest s s1)
  show ?case
  proof (intro allI impI, elim conjE)
    fix V D
    assume ok: "way_index_ok s" and nf: "\<not> route_found s"
      and split: "D @ (wid, c') # rest = ways_from s c" and vc: "is_visited s c"
      and cV: "c \<notin> V" and V: "V \<subseteq> visited_set s" and fc: "finished_closed s c V D"
    from "5"(3) ok nf "5"(4) have "lasso s c' c (visited_set s)" by blast
    with ok split "5"(1) vc cV V fc show "lasso s c p V" by (rule lasso_extend)
  qed
next
  case (6 n c p wid c' rest s s1 s')
  show ?case
  proof (intro allI impI, elim conjE)
    fix V D
    assume ok: "way_index_ok s" and nf: "\<not> route_found s" and f: "route_found s'"
      and split: "D @ (wid, c') # rest = ways_from s c" and vc: "is_visited s c"
      and cV: "c \<notin> V" and V: "V \<subseteq> visited_set s" and fc: "finished_closed s c V D"
    have k1: "keeps_visited s s1" using "6"(2) by (rule search_cycle_keeps)
    have sg: "same_graph s s1" using search_cycle_frame[OF "6"(2)] by simp
    have closed: "\<forall>e \<in> fresh s s1. \<forall>i \<in> set (ways_from s e).
                    snd i \<in> fresh s s1 \<or> (e = c' \<and> snd i = c)"
      using search_cycle_closed[OF "6"(2,4)] by blast
    have fc1: "finished_closed s1 c V (D @ [(wid, c')])"
      using fc closed k1 sg V vc by (rule finished_closed_step)
    have "way_index_ok s1" using sg ok by (rule same_graph_way_index_ok)
    moreover have "(D @ [(wid, c')]) @ rest = ways_from s1 c"
      using split by (simp add: same_graph_ways_from[OF sg])
    moreover have "is_visited s1 c" using k1 vc by (rule keeps_visited_is_visited)
    moreover have "V \<subseteq> visited_set s1"
      using V keeps_visited_is_visited[OF k1] by (auto simp: visited_set_def)
    ultimately have "lasso s1 c p V" using "6"(6) "6"(4) f cV fc1 by blast
    then show "lasso s c p V" by (simp add: lasso_cong[OF sg])
  qed
qed

lemmas search_cycle_lasso = search_cycle_lasso_all[THEN conjunct1, rule_format]

text \<open>The cycle buffer grows exactly when the search finds a cycle.\<close>

lemma search_cycle_buffer_all:
  "(\<forall>n c p s s'. search_cycle n c p s = Inr s' \<longrightarrow>
      (\<not> route_found s \<longrightarrow>
         (if route_found s' then cyclic_route s' \<noteq> [] else cyclic_route s' = cyclic_route s))) \<and>
   (\<forall>n c p ws s s'. search_cycle_loop n c p ws s = Inr s' \<longrightarrow>
      (\<not> route_found s \<longrightarrow>
         (if route_found s' then cyclic_route s' \<noteq> [] else cyclic_route s' = cyclic_route s)))"
proof (rule search_cycle_run_induct, goal_cases)
  case (1 n c p s cr)
  then show ?case by simp
next
  case (2 n c p s cr s1 s')
  then show ?case by simp
next
  case (3 n c p s)
  then show ?case by simp
next
  case (4 n c p wid rest s s')
  then show ?case by simp
next
  case (5 n c p wid c' rest s s1)
  then show ?case by simp
next
  case (6 n c p wid c' rest s s1 s')
  then show ?case by simp
qed

lemmas search_cycle_buffer = search_cycle_buffer_all[THEN conjunct1, rule_format]

section \<open>Cycle search from a neighbour of the sentinel coordinate\<close>

lemma c_by_sentinel_not_sentinel [simp]: "c_by_sentinel \<noteq> NO_COORD" "NO_COORD \<noteq> c_by_sentinel"
  by (simp_all add: c_by_sentinel_def NO_COORD_def)

lemma make_Way_T1: "make_Way ''T1'' [c_by_sentinel, NO_COORD] = Some way_T1"
  by (simp add: make_Way_def way_T1_def section_length_def floor_sqrt_values int_add_def
      int_sub_def int_wrap_def c_by_sentinel_def NO_COORD_def NO_VALUE_def Let_def)

lemma make_Way_T2: "make_Way ''T2'' [c_by_sentinel, NO_COORD] = Some way_T2"
  by (simp add: make_Way_def way_T2_def section_length_def floor_sqrt_values int_add_def
      int_sub_def int_wrap_def c_by_sentinel_def NO_COORD_def NO_VALUE_def Let_def)

lemma way_T_simps [simp]:
  "way_id way_T1 = ''T1''" "end1 way_T1 = c_by_sentinel" "end2 way_T1 = NO_COORD"
  "way_id way_T2 = ''T2''" "end1 way_T2 = c_by_sentinel" "end2 way_T2 = NO_COORD"
  by (simp_all add: way_T1_def way_T2_def)

lemma add_way_sentinel_twins:
  "\<exists>s. add_way ''T1'' [c_by_sentinel, NO_COORD] (init_state False) = Some (True, s) \<and>
       add_way ''T2'' [c_by_sentinel, NO_COORD] s = Some (True, sentinel_twins)"
  by (simp add: add_way_def get_way_def make_Way_T1 make_Way_T2 init_state_def
      sentinel_twins_def Let_def)

lemma reachable_sentinel_twins: "reachable sentinel_twins"
proof -
  from add_way_sentinel_twins obtain s where
    s: "add_way ''T1'' [c_by_sentinel, NO_COORD] (init_state False) = Some (True, s)"
      "add_way ''T2'' [c_by_sentinel, NO_COORD] s = Some (True, sentinel_twins)"
    by blast
  from reachable_add_way[OF reachable_add_way[OF reachable_init s(1)] s(2)] show ?thesis .
qed

lemma ways_from_sentinel_twins:
  "ways_from sentinel_twins c_by_sentinel = [(''T2'', NO_COORD), (''T1'', NO_COORD)]"
  "ways_from sentinel_twins NO_COORD = [(''T2'', c_by_sentinel), (''T1'', c_by_sentinel)]"
  by (simp_all add: ways_from_def sentinel_twins_def)

lemma route_with_cycle_sentinel_twins:
  "\<exists>s'. route_with_cycle (Suc n) c_by_sentinel sentinel_twins = Inr ([], s')"
  by (simp add: route_with_cycle_def ways_from_sentinel_twins)
     (simp add: clean_for_search_def sentinel_twins_def ways_from_def Let_def make_Crossroad_data_def)

lemma cycle_reachable_sentinel_twins: "cycle_reachable sentinel_twins c_by_sentinel"
  unfolding cycle_reachable_def
  by (intro exI[of _ "[(''T1'', NO_COORD), (''T2'', c_by_sentinel)]"])
     (simp add: ways_from_sentinel_twins)

lemma cycle_reachable_cong: "same_graph s s' \<Longrightarrow> cycle_reachable s' a = cycle_reachable s a"
  using walk_cong[of s s'] by (simp add: cycle_reachable_def)

lemma visited_set_clean: "visited_set (clean_for_search t s) = {}"
  by (auto simp: visited_set_def is_visited_def clean_for_search_def Let_def)

lemma distinct_last_notin:
  assumes "w \<noteq> []" and "distinct (map f w)"
  shows "f (last w) \<notin> set (map f (butlast w))"
proof -
  from assms(1) have "w = butlast w @ [last w]" by simp
  then have "map f w = map f (butlast w) @ [f (last w)]" by (metis list.simps(8,9) map_append)
  with assms(2) show ?thesis by simp
qed

section \<open>Failed mutations\<close>

text \<open>
  C5. A failed mutation is atomic: \<open>add_way\<close> with an id that is already present
  returns false and leaves the whole state as it was, and \<open>remove_way\<close> with an id that is
  not present returns false and leaves the whole state as it was.
\<close>

theorem failed_mutation_atomic:
  "(ways_by_id s wid \<noteq> None \<longrightarrow> add_way wid coords s = Some (False, s)) \<and>
   (ways_by_id s wid = None \<longrightarrow> remove_way wid s = (False, s))"
  by (auto simp: add_way_def remove_way_def get_way_def)

theorem failed_mutation_atomic_witness:
  "ways_by_id one_way ''W1'' \<noteq> None \<and>
   add_way ''W1'' [c00, c43] one_way = Some (False, one_way) \<and>
   ways_by_id one_way ''W2'' = None \<and>
   remove_way ''W2'' one_way = (False, one_way)"
proof -
  have present: "ways_by_id one_way ''W1'' \<noteq> None" and absent: "ways_by_id one_way ''W2'' = None"
    by (simp_all add: one_way_def)
  from failed_mutation_atomic[of one_way "''W1''" "[c00, c43]"] present
  have "add_way ''W1'' [c00, c43] one_way = Some (False, one_way)" by blast
  moreover from failed_mutation_atomic[of one_way "''W2''" "[]"] absent
  have "remove_way ''W2'' one_way = (False, one_way)" by blast
  ultimately show ?thesis using present absent by blast
qed

section \<open>The example route\<close>

text \<open>
  C2, as the code has it. With the two ways W1 from (0,0) to (0,3), of length 3, and W2
  from (0,3) to (4,3), of length 4, stored (in either order of insertion), and a budget
  of at least three nested activations, \<open>route_any\<close> from (0,0) to (4,3) returns the
  three entries in start-to-goal order with the distances 0, 3 and 7; each entry holds
  the way that leaves its coordinate, and the last one holds \<open>NO_WAY\<close>.
\<close>

theorem route_any_example:
  "map_sum id fst (route_any (Suc (Suc (Suc n))) c00 c43 two_ways)
     = Inr [(c00, ''W1'', 0), (c03, ''W2'', 3), (c43, NO_WAY, 7)] \<and>
   map_sum id fst (route_any (Suc (Suc (Suc n))) c00 c43 two_ways_rev)
     = Inr [(c00, ''W1'', 0), (c03, ''W2'', 3), (c43, NO_WAY, 7)]"
  by (simp add: route_any_def clean_for_search_def two_ways_def two_ways_rev_def ways_from_def
      Let_def make_Crossroad_data_def int_add_def int_wrap_def)

text \<open>
  C2, as it is stated, fails: the returned sequence is not the one with \<open>NO_WAY\<close> in the
  first entry and W1 and W2 in the entries they lead to.
\<close>

theorem route_any_example_not_arriving:
  "map_sum id fst (route_any 3 c00 c43 two_ways)
     \<noteq> Inr [(c00, NO_WAY, 0), (c03, ''W1'', 3), (c43, ''W2'', 7)]"
  by (simp add: route_any_def clean_for_search_def two_ways_def ways_from_def
      Let_def make_Crossroad_data_def eval_nat_numeral NO_WAY_def)

section \<open>Crossroad entries and the Way Index\<close>

text \<open>
  C4. In every state reached by calls of \<open>add_way\<close>, \<open>remove_way\<close>, \<open>clear_ways\<close>,
  \<open>route_any\<close> and \<open>route_with_cycle\<close>, a coordinate has a crossroad entry if and only
  if it is an end of a stored way; and a route query that returns leaves both views of
  the Way Index and the set of coordinates with an entry as they were, and the
  coordinate stored in each entry too: it writes the visited and distance fields only.
\<close>

theorem crossroad_entries_follow_ways:
  assumes "reachable s"
  shows "(\<forall>c. c \<in> dom (visited_coordinates s) \<longleftrightarrow> is_endpoint s c) \<and>
         (\<forall>fuel a b r s'. route_any fuel a b s = Inr (r, s') \<longrightarrow>
            same_graph s s' \<and> keeps_coordinates s s') \<and>
         (\<forall>fuel a rc s'. route_with_cycle fuel a s = Inr (rc, s') \<longrightarrow>
            same_graph s s' \<and> keeps_coordinates s s')"
proof -
  from reachable_state_inv[OF assms]
  have "\<forall>c. c \<in> dom (visited_coordinates s) \<longleftrightarrow> is_endpoint s c"
    by (simp add: state_inv_def entries_exact_def)
  moreover have "same_graph s s' \<and> keeps_coordinates s s'"
    if "route_any fuel a b s = Inr (r, s')" for fuel a b r s'
    using route_any_same_graph[OF that] route_any_keeps_coordinates[OF that] by simp
  moreover have "same_graph s s' \<and> keeps_coordinates s s'"
    if "route_with_cycle fuel a s = Inr (rc, s')" for fuel a rc s'
    using route_with_cycle_same_graph[OF that] route_with_cycle_keeps_coordinates[OF that] by simp
  ultimately show ?thesis by blast
qed

theorem crossroad_entries_follow_ways_witness:
  "reachable two_ways \<and>
   c03 \<in> dom (visited_coordinates two_ways) \<and> is_endpoint two_ways c03 \<and>
   NO_COORD \<notin> dom (visited_coordinates two_ways) \<and> \<not> is_endpoint two_ways NO_COORD \<and>
   (\<exists>r s'. route_any 3 c00 c43 two_ways = Inr (r, s') \<and>
            same_graph two_ways s' \<and> keeps_coordinates two_ways s') \<and>
   (\<exists>rc s'. route_with_cycle 4 c00 two_ways = Inr (rc, s') \<and>
            same_graph two_ways s' \<and> keeps_coordinates two_ways s')"
proof -
  note inst = crossroad_entries_follow_ways[OF reachable_two_ways]
  have in03: "c03 \<in> dom (visited_coordinates two_ways)"
    and out: "NO_COORD \<notin> dom (visited_coordinates two_ways)"
    by (simp_all add: two_ways_def NO_COORD_def NO_VALUE_def c00_def c03_def c43_def)
  from inst in03 out have ends: "is_endpoint two_ways c03" "\<not> is_endpoint two_ways NO_COORD"
    by blast+
  from route_any_two_ways_run[of 0] obtain s1 where
    r1: "route_any 3 c00 c43 two_ways = Inr ([(c00, ''W1'', 0), (c03, ''W2'', 3), (c43, NO_WAY, 7)], s1)"
    by (auto simp: eval_nat_numeral)
  from route_with_cycle_two_ways_run[of 0] obtain s2 where
    r2: "route_with_cycle 4 c00 two_ways = Inr ([], s2)"
    by (auto simp: eval_nat_numeral)
  from inst r1 have "same_graph two_ways s1 \<and> keeps_coordinates two_ways s1" by blast
  moreover from inst r2 have "same_graph two_ways s2 \<and> keeps_coordinates two_ways s2" by blast
  ultimately show ?thesis using reachable_two_ways in03 out ends r1 r2 by blast
qed

section \<open>Lookups during the searches\<close>

text \<open>
  C10. In a graph state (the Way Index is consistent, every end of every stored way has
  a crossroad entry, the table is finite) no lookup of a query fails, whatever the
  budget of activations: \<open>route_any\<close> and \<open>route_with_cycle\<close> never end in
  \<open>out_of_range\<close>, and with a large enough budget both return.
\<close>

theorem lookups_never_fail:
  assumes "graph_ok s"
  shows "route_any fuel a b s \<noteq> Inl out_of_range \<and>
         route_with_cycle fuel a s \<noteq> Inl out_of_range \<and>
         (\<exists>n r s'. route_any n a b s = Inr (r, s')) \<and>
         (\<exists>n rc s'. route_with_cycle n a s = Inr (rc, s'))"
  using route_any_in_range[OF assms] route_with_cycle_in_range[OF assms]
    route_any_returns[OF assms le_refl] route_with_cycle_returns[OF assms lessI]
  by blast

theorem lookups_never_fail_witness:
  "graph_ok two_ways \<and>
   route_any 1 c00 c43 two_ways \<noteq> Inl out_of_range \<and>
   route_with_cycle 1 c00 two_ways \<noteq> Inl out_of_range \<and>
   (\<exists>n r s'. route_any n c00 c43 two_ways = Inr (r, s')) \<and>
   (\<exists>n rc s'. route_with_cycle n c00 two_ways = Inr (rc, s'))"
  using lookups_never_fail[OF graph_ok_two_ways, of 1 c00 c43] graph_ok_two_ways by blast

section \<open>Depth of the recursion\<close>

text \<open>
  C9, as the code has it. In every reachable state, with N the number of distinct
  coordinates that are ends of stored ways: \<open>route_any\<close> returns within N nested
  activations of \<open>search_any\<close>, and \<open>route_with_cycle\<close> returns within N + 1 nested
  activations of \<open>search_cycle\<close>.
\<close>

theorem search_depth_bounded:
  assumes "reachable s"
  shows "(card {c. is_endpoint s c} \<le> fuel \<longrightarrow> (\<exists>r s'. route_any fuel a b s = Inr (r, s'))) \<and>
         (card {c. is_endpoint s c} < fuel \<longrightarrow> (\<exists>rc s'. route_with_cycle fuel a s = Inr (rc, s')))"
proof -
  have inv: "state_inv s" using assms by (rule reachable_state_inv)
  then have "{c. is_endpoint s c} = dom (visited_coordinates s)"
    by (auto simp: state_inv_def entries_exact_def)
  with route_any_returns[OF state_inv_graph_ok[OF inv], of fuel a b]
    route_with_cycle_returns[OF state_inv_graph_ok[OF inv], of fuel a]
  show ?thesis by simp
qed

theorem search_depth_bounded_witness:
  "reachable triangle \<and> card {c. is_endpoint triangle c} \<le> 3 \<and>
   (\<exists>r s'. route_any 3 c00 c43 triangle = Inr (r, s')) \<and>
   card {c. is_endpoint triangle c} < 4 \<and>
   (\<exists>rc s'. route_with_cycle 4 c00 triangle = Inr (rc, s'))"
  using search_depth_bounded[OF reachable_triangle, of 3 c00 c43]
    search_depth_bounded[OF reachable_triangle, of 4 c00 c43]
    reachable_triangle card_endpoints_triangle
  by simp

text \<open>
  C9, as it is stated, fails for \<open>route_with_cycle\<close>: on the triangle of three ways, which
  has three coordinates, three nested activations are not enough. The search enters
  (0,0), (4,3), (0,3) and then (0,0) again, where it finds the coordinate visited.
\<close>

theorem cycle_search_depth_exceeds_coordinates:
  "route_with_cycle (card {c. is_endpoint triangle c}) c00 triangle = Inl out_of_fuel"
  using route_with_cycle_triangle_short by (simp add: card_endpoints_triangle eval_nat_numeral)

section \<open>A route from a coordinate to itself\<close>

text \<open>
  C7. In a graph state, for a coordinate x with at least one incident way,
  \<open>route_any\<close> from x to x returns exactly the one entry (x, NO_WAY, 0); one
  activation of \<open>search_any\<close> is enough.
\<close>

theorem route_any_same_endpoint:
  assumes "graph_ok s" and "ways_from s x \<noteq> []"
  shows "map_sum id fst (route_any (Suc n) x x s) = Inr [(x, NO_WAY, 0)]"
proof -
  from graph_ok_start_entry[OF assms] obtain cr where cr: "visited_coordinates s x = Some cr"
    by auto
  then show ?thesis using assms(2)
    by (simp add: route_any_def clean_for_search_def Let_def)
qed

theorem route_any_same_endpoint_witness:
  "graph_ok two_ways \<and> ways_from two_ways c03 \<noteq> [] \<and>
   map_sum id fst (route_any (Suc 0) c03 c03 two_ways) = Inr [(c03, NO_WAY, 0)]"
proof -
  have ne: "ways_from two_ways c03 \<noteq> []" by (simp add: ways_from_def two_ways_def)
  from route_any_same_endpoint[OF graph_ok_two_ways ne, of 0] graph_ok_two_ways ne
  show ?thesis by simp
qed

section \<open>The shape of a route\<close>

text \<open>
  C1, as the code has it. When the Way Index is consistent and \<open>route_any\<close> from a to b
  returns a sequence that is neither the sentinel nor empty, the sequence starts at a
  with distance 0 and ends at b with \<open>NO_WAY\<close>, and for consecutive entries
  (c, w, d) and (c', w', d') the way w of the first entry is stored and has c and c' as
  its two ends, and d' is the sum of d and the length of w in \<open>int\<close> arithmetic; so
  d' - d is the length of w whenever d plus that length is in the range of \<open>int\<close>
  (\<open>route_links\<close>, through \<open>way_leads\<close> and \<open>distance_step\<close>).
\<close>

theorem route_any_links:
  assumes "way_index_ok s" and "route_any fuel a b s = Inr (r, s')"
    and "r \<noteq> [(NO_COORD, NO_WAY, NO_DISTANCE)]" and "r \<noteq> []"
  shows "route_links s r \<and> fst (hd r) = a \<and> snd (snd (hd r)) = 0 \<and>
         fst (last r) = b \<and> fst (snd (last r)) = NO_WAY"
proof -
  let ?s0 = "clean_for_search NORMAL s"
  from assms(2,3) have pre: "\<not> (ways_from s b = [] \<or> ways_from s a = [])"
    by (auto simp: route_any_def)
  with assms(2) obtain s2 where
    run: "search_any fuel a b 0 ?s0 = Inr s2" and r: "r = rev (chosen_route s2)"
    by (auto simp: route_any_def Let_def split: sum.splits)
  have sg: "same_graph s ?s0" by (rule same_graph_clean)
  have "way_index_ok ?s0" using sg assms(1) by (rule same_graph_way_index_ok)
  moreover have "\<not> route_found ?s0" by (simp add: clean_for_search_def Let_def)
  moreover have "\<not> is_visited ?s0 a"
    by (auto simp: is_visited_def clean_for_search_def Let_def)
  ultimately have out: "search_any_outcome ?s0 s2 a 0 b" using search_any_route[OF run] by blast
  have empty: "chosen_route ?s0 = []" by (simp add: clean_for_search_def Let_def)
  show ?thesis
  proof (cases "route_found s2")
    case True
    from search_any_outcome_foundD[OF out True] empty obtain r0 where
      "chosen_route s2 = rev r0" "route_from_to ?s0 a 0 b r0" by auto
    with r route_from_to_cong[OF sg, of a 0 b r0] have "route_from_to s a 0 b r" by simp
    then show ?thesis by (simp add: route_from_to_def)
  next
    case False
    from search_any_outcome_notD[OF out False] empty r assms(4) show ?thesis by simp
  qed
qed

theorem route_any_links_witness:
  "way_index_ok two_ways \<and>
   (\<exists>r s'. route_any 3 c00 c43 two_ways = Inr (r, s') \<and>
      r \<noteq> [(NO_COORD, NO_WAY, NO_DISTANCE)] \<and> r \<noteq> [] \<and>
      route_links two_ways r \<and> fst (hd r) = c00 \<and> snd (snd (hd r)) = 0 \<and>
      fst (last r) = c43 \<and> fst (snd (last r)) = NO_WAY)"
proof -
  have ok: "way_index_ok two_ways" using graph_ok_two_ways by (simp add: graph_ok_def)
  from route_any_two_ways_run[of 0] obtain s1 where
    r1: "route_any 3 c00 c43 two_ways = Inr ([(c00, ''W1'', 0), (c03, ''W2'', 3), (c43, NO_WAY, 7)], s1)"
    by (auto simp: eval_nat_numeral)
  let ?r = "[(c00, ''W1'', 0 :: Distance), (c03, ''W2'', 3), (c43, NO_WAY, 7)]"
  have ne: "?r \<noteq> [(NO_COORD, NO_WAY, NO_DISTANCE)]" "?r \<noteq> []" by simp_all
  from route_any_links[OF ok r1 ne] have
    "route_links two_ways ?r \<and> fst (hd ?r) = c00 \<and> snd (snd (hd ?r)) = 0 \<and>
     fst (last ?r) = c43 \<and> fst (snd (last ?r)) = NO_WAY" .
  with ok r1 ne show ?thesis by blast
qed

text \<open>
  C1, as it is stated, fails: in the route of the example the way recorded in the second
  entry, W2, does not join the first coordinate (0,0) to the second, (0,3).
\<close>

theorem route_any_links_not_arriving:
  "map_sum id fst (route_any 3 c00 c43 two_ways)
     = Inr [(c00, ''W1'', 0), (c03, ''W2'', 3), (c43, NO_WAY, 7)] \<and>
   \<not> route_links_arriving two_ways [(c00, ''W1'', 0), (c03, ''W2'', 3), (c43, NO_WAY, 7)]"
proof -
  from route_any_two_ways_run[of 0] have
    "map_sum id fst (route_any 3 c00 c43 two_ways)
       = Inr [(c00, ''W1'', 0), (c03, ''W2'', 3), (c43, NO_WAY, 7)]"
    by (auto simp: eval_nat_numeral)
  moreover have "\<not> way_joins two_ways ''W2'' c00 c03 3"
    by (simp add: way_joins_def two_ways_def)
  ultimately show ?thesis by simp
qed

section \<open>Sentinel and empty results\<close>

text \<open>
  C6. \<open>route_any\<close> returns the one-entry sentinel sequence, without searching and whatever
  the budget, when one of the two coordinates has no incident way. In a graph state, when
  both have an incident way and no path joins them, it returns the empty sequence (given
  a budget of as many activations as there are crossroad entries).
\<close>

theorem route_any_sentinel_or_empty:
  "(ways_from s a = [] \<or> ways_from s b = [] \<longrightarrow>
      route_any fuel a b s = Inr ([(NO_COORD, NO_WAY, NO_DISTANCE)], s)) \<and>
   (graph_ok s \<and> ways_from s a \<noteq> [] \<and> ways_from s b \<noteq> [] \<and> \<not> path_exists s a b \<and>
    card (dom (visited_coordinates s)) \<le> fuel \<longrightarrow>
      map_sum id fst (route_any fuel a b s) = Inr [])"
proof (intro conjI impI)
  assume "ways_from s a = [] \<or> ways_from s b = []"
  then show "route_any fuel a b s = Inr ([(NO_COORD, NO_WAY, NO_DISTANCE)], s)"
    by (auto simp: route_any_def)
next
  assume "graph_ok s \<and> ways_from s a \<noteq> [] \<and> ways_from s b \<noteq> [] \<and> \<not> path_exists s a b \<and>
    card (dom (visited_coordinates s)) \<le> fuel"
  with route_any_unconnected[of s a b fuel] obtain s' where "route_any fuel a b s = Inr ([], s')"
    by blast
  then show "map_sum id fst (route_any fuel a b s) = Inr []" by simp
qed

theorem route_any_sentinel_or_empty_witness:
  "ways_from apart NO_COORD = [] \<and>
   route_any 0 c00 NO_COORD apart = Inr ([(NO_COORD, NO_WAY, NO_DISTANCE)], apart) \<and>
   route_any 0 NO_COORD c00 apart = Inr ([(NO_COORD, NO_WAY, NO_DISTANCE)], apart) \<and>
   graph_ok apart \<and> ways_from apart c00 \<noteq> [] \<and> ways_from apart c43 \<noteq> [] \<and>
   \<not> path_exists apart c00 c43 \<and> card (dom (visited_coordinates apart)) \<le> 4 \<and>
   map_sum id fst (route_any 4 c00 c43 apart) = Inr []"
proof -
  have none: "ways_from apart NO_COORD = []"
    by (simp add: ways_from_def apart_def NO_COORD_def NO_VALUE_def c00_def c03_def c43_def c40_def)
  have some: "ways_from apart c00 \<noteq> []" "ways_from apart c43 \<noteq> []"
    by (simp_all add: ways_from_def apart_def)
  have "dom (visited_coordinates apart) = {c00, c03, c43, c40}"
    by (auto simp: apart_def)
  then have card: "card (dom (visited_coordinates apart)) \<le> 4"
    by (simp add: card_insert_if)
  from route_any_sentinel_or_empty[of apart c00 NO_COORD 0] none
  have 1: "route_any 0 c00 NO_COORD apart = Inr ([(NO_COORD, NO_WAY, NO_DISTANCE)], apart)" by blast
  from route_any_sentinel_or_empty[of apart NO_COORD c00 0] none
  have 2: "route_any 0 NO_COORD c00 apart = Inr ([(NO_COORD, NO_WAY, NO_DISTANCE)], apart)" by blast
  from route_any_sentinel_or_empty[of apart c00 c43 4] graph_ok_apart some no_path_apart card
  have 3: "map_sum id fst (route_any 4 c00 c43 apart) = Inr []" by blast
  from none 1 2 graph_ok_apart some no_path_apart card 3 show ?thesis by blast
qed

section \<open>Cycles\<close>

text \<open>
  C3, as the code has it. In a graph state, for a start coordinate with at least one
  incident way none of which leads to the sentinel coordinate \<open>NO_COORD\<close>, and a
  budget of one more activation than there are crossroad entries, \<open>route_with_cycle\<close>
  returns, and the sequence it returns is non-empty if and only if a cycle is reachable
  from the start: a walk of at least one step that never retraces the way just used and
  ends at a coordinate it has been at.
\<close>

theorem route_with_cycle_finds_cycles:
  assumes ok: "graph_ok s" and pre: "ways_from s a \<noteq> []"
    and ns: "NO_COORD \<notin> snd ` set (ways_from s a)"
    and fuel: "card (dom (visited_coordinates s)) < fuel"
  shows "\<exists>r s'. route_with_cycle fuel a s = Inr (r, s') \<and> (r \<noteq> [] \<longleftrightarrow> cycle_reachable s a)"
proof -
  let ?s0 = "clean_for_search CYCLE s"
  from route_with_cycle_returns[OF ok fuel, of a] obtain r s' where
    run: "route_with_cycle fuel a s = Inr (r, s')" by blast
  with pre obtain s2 where
    run2: "search_cycle fuel a NO_COORD ?s0 = Inr s2" and r: "r = rev (cyclic_route s2)"
    by (auto simp: route_with_cycle_def Let_def split: sum.splits)
  have wok: "way_index_ok s" using ok by (simp add: graph_ok_def)
  have sg: "same_graph s ?s0" by (rule same_graph_clean)
  have ok0: "way_index_ok ?s0" using sg wok by (rule same_graph_way_index_ok)
  have nf0: "\<not> route_found ?s0" by (simp add: clean_for_search_def Let_def)
  have empty: "cyclic_route ?s0 = []" by (simp add: clean_for_search_def Let_def)
  from search_cycle_buffer[OF run2 nf0] empty r
  have r_iff: "r \<noteq> [] \<longleftrightarrow> route_found s2" by (auto split: if_splits)
  have "route_found s2 \<longleftrightarrow> cycle_reachable s a"
  proof
    assume "route_found s2"
    with search_cycle_lasso[OF run2] ok0 nf0 have "lasso ?s0 a NO_COORD (visited_set ?s0)" by blast
    then obtain w where "walk ?s0 a w" "no_retrace w" "w \<noteq> []"
      "snd (last w) \<in> set (a # map snd (butlast w))"
      unfolding lasso_def visited_set_clean by (auto split: if_splits)
    then have "cycle_reachable ?s0 a" unfolding cycle_reachable_def by blast
    then show "cycle_reachable s a" by (simp add: cycle_reachable_cong[OF sg])
  next
    assume "cycle_reachable s a"
    then have "cycle_reachable ?s0 a" by (simp add: cycle_reachable_cong[OF sg])
    then obtain w where w: "w \<noteq> []" "walk ?s0 a w" "no_retrace w"
      "snd (last w) \<in> set (a # map snd (butlast w))"
      unfolding cycle_reachable_def by blast
    show "route_found s2"
    proof (rule ccontr)
      assume nf: "\<not> route_found s2"
      from w(1,2) have "hd w \<in> set (ways_from ?s0 a)" by (cases w) simp_all
      then have "snd (hd w) \<in> snd ` set (ways_from s a)"
        by (simp add: same_graph_ways_from[OF sg])
      with ns have "snd (hd w) \<noteq> NO_COORD" by metis
      then have first: "w \<noteq> [] \<longrightarrow> snd (hd w) \<noteq> NO_COORD" by simp
      from search_cycle_tree[OF run2] ok0 nf w(2,3) first
      have d: "distinct (map snd w)" and sub: "set (map snd w) \<subseteq> fresh ?s0 s2 - {a}" by blast+
      from distinct_last_notin[OF w(1) d]
      have "snd (last w) \<notin> set (map snd (butlast w))" .
      moreover from w(1) have "snd (last w) \<in> set (map snd w)" by simp
      with sub have "snd (last w) \<noteq> a" by auto
      ultimately show False using w(4) by simp
    qed
  qed
  with run r_iff show ?thesis by blast
qed

theorem route_with_cycle_finds_cycles_witness:
  "graph_ok triangle \<and> ways_from triangle c00 \<noteq> [] \<and>
   NO_COORD \<notin> snd ` set (ways_from triangle c00) \<and>
   card (dom (visited_coordinates triangle)) < 4 \<and>
   (\<exists>r s'. route_with_cycle 4 c00 triangle = Inr (r, s') \<and> r \<noteq> [] \<and>
            cycle_reachable triangle c00)"
proof -
  have wf: "ways_from triangle c00 = [(''W3'', c43), (''W1'', c03)]"
    by (simp add: ways_from_def triangle_def)
  have pre: "ways_from triangle c00 \<noteq> []" by (simp add: wf)
  have ns: "NO_COORD \<notin> snd ` set (ways_from triangle c00)"
    by (simp add: wf NO_COORD_def NO_VALUE_def c03_def c43_def)
  have "dom (visited_coordinates triangle) = {c00, c03, c43}" by (auto simp: triangle_def)
  then have fuel: "card (dom (visited_coordinates triangle)) < 4" by simp
  from route_with_cycle_finds_cycles[OF graph_ok_triangle pre ns fuel] obtain r s' where
    run: "route_with_cycle 4 c00 triangle = Inr (r, s')"
    and iff: "r \<noteq> [] \<longleftrightarrow> cycle_reachable triangle c00" by blast
  from route_with_cycle_triangle_run[of 0] run have "r \<noteq> []"
    by (auto simp: eval_nat_numeral)
  with iff run graph_ok_triangle pre ns fuel show ?thesis by blast
qed

text \<open>
  C3, as it is stated, fails where the sentinel coordinate is a coordinate of the graph.
  Two ways join a coordinate to \<open>NO_COORD\<close>, so there is a cycle through both; the
  search from that coordinate starts with \<open>NO_COORD\<close> as the previous coordinate, skips
  both ways and returns the empty sequence.
\<close>

theorem route_with_cycle_misses_cycle_at_sentinel:
  "reachable sentinel_twins \<and> ways_from sentinel_twins c_by_sentinel \<noteq> [] \<and>
   map_sum id fst (route_with_cycle 3 c_by_sentinel sentinel_twins) = Inr [] \<and>
   cycle_reachable sentinel_twins c_by_sentinel"
proof -
  from route_with_cycle_sentinel_twins[of 2]
  have "map_sum id fst (route_with_cycle 3 c_by_sentinel sentinel_twins) = Inr []"
    by (auto simp: eval_nat_numeral)
  with reachable_sentinel_twins cycle_reachable_sentinel_twins show ?thesis
    by (simp add: ways_from_sentinel_twins)
qed

end
